theory Spec2Isabelle
  imports Main "HOL-Library.AList"
begin

section \<open>Values, containers and draft states\<close>

text \<open>
  The module \<^verbatim>\<open>src/proxy.js\<close> implements copy-on-write drafts over JavaScript objects
  and arrays. Object identity matters (\<^verbatim>\<open>===\<close> on containers, reference-equal results), so
  containers live in an explicit heap: an address is an index into the list of allocated
  containers, and allocation appends. A container is modelled by its kind and its own
  data properties, in insertion order; inherited members, the prototype of a container and
  the \<^verbatim>\<open>length\<close> bookkeeping of arrays are not part of the model. A key of a container
  names an own data property, also the key \<^verbatim>\<open>__proto__\<close>, which is an own property in an
  object that \<^verbatim>\<open>JSON.parse\<close> built from a text with that key.
\<close>

datatype key = PROXY_STATE | Prop string

datatype val =
    Undefined
  | Null
  | Bool bool
  | Num int
  | NaN
  | Str string
  | Ref nat        \<comment> \<open>a container, by address\<close>
  | Prox nat       \<comment> \<open>a draft: the proxy created for the draft state with this index\<close>
  | StateV nat     \<comment> \<open>a draft state object itself, as \<^verbatim>\<open>draft[PROXY_STATE]\<close> yields it\<close>

datatype kind = PlainObject | Array | Exotic

record obj =
  kind :: kind
  ents :: "(key \<times> val) list"

text \<open>
  The record that \<^verbatim>\<open>createState\<close> builds. \<open>parent\<close> is the index of the parent state.
  The cache \<^verbatim>\<open>proxies\<close> is created as \<^verbatim>\<open>{}\<close>, an ordinary object whose prototype is
  \<^verbatim>\<open>Object.prototype\<close>. The field \<open>proxies\<close> holds its own properties, which is what
  \<^verbatim>\<open>has\<close> and \<^verbatim>\<open>Object.assign\<close> see. The field \<open>proxiesProto\<close> is the prototype of that
  object once it has been replaced: \<open>None\<close> stands for \<^verbatim>\<open>Object.prototype\<close>, and storing
  under the key \<^verbatim>\<open>__proto__\<close> replaces it (see \<open>cacheStore\<close> below).
\<close>

record state =
  modified :: bool
  finalized :: bool
  parent :: "nat option"
  base :: val
  copy :: val
  proxies :: "(key \<times> val) list"
  proxiesProto :: "val option"

text \<open>
  The world: the heap, every draft state created so far (a draft state is named by its
  index, and so is its proxy), the proxies that have been revoked, and the module
  variable \<^verbatim>\<open>proxies\<close> (here \<open>registry\<close>), which collects the revocable proxies of the
  running call.
\<close>

record world =
  heap :: "obj list"
  states :: "state list"
  revoked :: "nat set"
  registry :: "nat list"

datatype error =
    Error string     \<comment> \<open>\<^verbatim>\<open>new Error(msg)\<close> thrown by the module\<close>
  | TypeError        \<comment> \<open>the runtime's error for an operation on a revoked proxy\<close>
  | Thrown val       \<comment> \<open>a value thrown by the producer\<close>

subsection \<open>Property access on values\<close>

definition objAt :: "world \<Rightarrow> val \<Rightarrow> obj option" where
  "objAt w v = (case v of Ref a \<Rightarrow> if a < length (heap w) then Some (heap w ! a) else None
                        | _ \<Rightarrow> None)"

definition lookup :: "(key \<times> val) list \<Rightarrow> key \<Rightarrow> val" where
  "lookup al k = (case map_of al k of Some x \<Rightarrow> x | None \<Rightarrow> Undefined)"

text \<open>
  \<^verbatim>\<open>v[k]\<close>, \<^verbatim>\<open>k in v\<close>, \<^verbatim>\<open>v[k] = x\<close> and \<^verbatim>\<open>delete v[k]\<close> on a container \<open>v\<close>. The module
  applies them to the base and the copy of a draft state. A base is always a container:
  the root base by the contract of the caller of \<^verbatim>\<open>produceProxy\<close>, the base of a child
  because it passed \<^verbatim>\<open>isProxyable\<close>; a copy is one once \<^verbatim>\<open>markChanged\<close> has run, and
  the traps touch it only then. On any other value, where JavaScript would raise a
  \<^verbatim>\<open>TypeError\<close> or consult a wrapper object, the functions below read \<^verbatim>\<open>undefined\<close> and
  write nothing; the theorems about calls start from a base that is a container.
\<close>

definition getProp :: "world \<Rightarrow> val \<Rightarrow> key \<Rightarrow> val" where
  "getProp w v k = (case objAt w v of Some ob \<Rightarrow> lookup (ents ob) k | None \<Rightarrow> Undefined)"

definition inOp :: "world \<Rightarrow> val \<Rightarrow> key \<Rightarrow> bool" where
  "inOp w v k = (case objAt w v of Some ob \<Rightarrow> map_of (ents ob) k \<noteq> None | None \<Rightarrow> False)"

definition setProp :: "val \<Rightarrow> key \<Rightarrow> val \<Rightarrow> world \<Rightarrow> world" where
  "setProp v k x w =
     (case v of
        Ref a \<Rightarrow> w\<lparr>heap := (heap w)[a := (heap w ! a)\<lparr>ents := AList.update k x (ents (heap w ! a))\<rparr>]\<rparr>
      | _ \<Rightarrow> w)"

definition deleteProp :: "val \<Rightarrow> key \<Rightarrow> world \<Rightarrow> world" where
  "deleteProp v k w =
     (case v of
        Ref a \<Rightarrow> w\<lparr>heap := (heap w)[a := (heap w ! a)\<lparr>ents := AList.delete k (ents (heap w ! a))\<rparr>]\<rparr>
      | _ \<Rightarrow> w)"

text \<open>\<^verbatim>\<open>a === b\<close>: identity, except that \<^verbatim>\<open>NaN\<close> is not equal to itself.\<close>

definition strict_eq :: "val \<Rightarrow> val \<Rightarrow> bool" where
  "strict_eq a b = (a = b \<and> a \<noteq> NaN)"

subsection \<open>The helpers imported from \<^verbatim>\<open>./common\<close>\<close>

text \<open>
  Modelled from the spec: \<^verbatim>\<open>is\<close> of \<^verbatim>\<open>./common\<close>, which is not among the sources. The
  spec's \<^verbatim>\<open>equal(a, b)\<close> is a reference/value identity check that treats NaN-like values
  as equal to themselves.
\<close>

definition is_equal :: "val \<Rightarrow> val \<Rightarrow> bool" where
  "is_equal x y = (x = y)"

text \<open>
  Modelled from the spec: \<^verbatim>\<open>has\<close> of \<^verbatim>\<open>./common\<close>, which is not among the sources. The
  spec consults the children cache with it: a hit is a key present in the cache.
\<close>

definition has :: "(key \<times> val) list \<Rightarrow> key \<Rightarrow> bool" where
  "has al k = (map_of al k \<noteq> None)"

text \<open>
  Modelled from the spec: \<^verbatim>\<open>isProxy\<close> of \<^verbatim>\<open>./common\<close>, which is not among the sources:
  the spec's \<^verbatim>\<open>is-draft(v)\<close>.
\<close>

definition isProxy :: "val \<Rightarrow> bool" where
  "isProxy v = (case v of Prox _ \<Rightarrow> True | _ \<Rightarrow> False)"

text \<open>
  Modelled from the spec: \<^verbatim>\<open>isProxyable\<close> of \<^verbatim>\<open>./common\<close>, which is not among the
  sources. The spec's \<^verbatim>\<open>is-plain-container(v)\<close> is true only for the two draftable shapes
  (ordered sequence, key-ordered record) and rejects a value that is already a draft.
\<close>

definition isProxyable :: "world \<Rightarrow> val \<Rightarrow> bool" where
  "isProxyable w v =
     (case objAt w v of Some ob \<Rightarrow> kind ob = PlainObject \<or> kind ob = Array | None \<Rightarrow> False)"

text \<open>
  Modelled from the spec: \<^verbatim>\<open>shallowCopy\<close> of \<^verbatim>\<open>./common\<close>, which is not among the
  sources. The spec's \<^verbatim>\<open>shallow-copy(container)\<close> is a new container of the same kind with
  the same entries in the same order, one level deep. For a value that is no container
  the copy is a new empty record.
\<close>

definition shallowCopy :: "val \<Rightarrow> world \<Rightarrow> val \<times> world" where
  "shallowCopy v w =
     (Ref (length (heap w)),
      w\<lparr>heap := heap w @ [case objAt w v of Some ob \<Rightarrow> ob
                                          | None \<Rightarrow> \<lparr>kind = PlainObject, ents = []\<rparr>]\<rparr>)"

text \<open>
  Modelled from the spec: \<^verbatim>\<open>each\<close> of \<^verbatim>\<open>./common\<close>, which is not among the sources. The
  spec's \<^verbatim>\<open>iterate(collection, fn)\<close> enumerates the entries in order; the function is run
  for its effect on the world.
\<close>

definition each :: "'a list \<Rightarrow> ('a \<Rightarrow> world \<Rightarrow> world) \<Rightarrow> world \<Rightarrow> world" where
  "each xs fn w = foldl (\<lambda>w' x. fn x w') w xs"

text \<open>
  Modelled from the spec: the message constant \<^verbatim>\<open>RETURNED_AND_MODIFIED_ERROR\<close> of
  \<^verbatim>\<open>./common\<close>, which is not among the sources. The spec names the error
  \<^verbatim>\<open>ReturnedAndModified\<close>.
\<close>

definition RETURNED_AND_MODIFIED_ERROR :: string where
  "RETURNED_AND_MODIFIED_ERROR = ''ReturnedAndModified''"

text \<open>\<^verbatim>\<open>Object.assign(target, src)\<close>: every entry of \<open>src\<close>, in order, is stored into \<open>target\<close>.\<close>

definition objectAssign :: "val \<Rightarrow> (key \<times> val) list \<Rightarrow> world \<Rightarrow> world" where
  "objectAssign target src w = foldl (\<lambda>w' (k, x). setProp target k x w') w src"

section \<open>The module \<^verbatim>\<open>proxy.js\<close>\<close>

definition createState :: "nat option \<Rightarrow> val \<Rightarrow> state" where
  "createState parent' base' =
     \<lparr>modified = False, finalized = False, parent = parent', base = base',
      copy = Undefined, proxies = [], proxiesProto = None\<rparr>"

definition source :: "state \<Rightarrow> val" where
  "source st = (if modified st = True then copy st else base st)"

text \<open>
  \<^verbatim>\<open>createProxy\<close>: the new state takes the next index, its revocable proxy is pushed on
  the registry, and the proxy is returned. Object and array drafts differ only in the
  target the runtime wraps (\<^verbatim>\<open>state\<close> or \<^verbatim>\<open>[state]\<close>); the array traps unwrap it and call
  the object traps.
\<close>

definition createProxy :: "nat option \<Rightarrow> val \<Rightarrow> world \<Rightarrow> val \<times> world" where
  "createProxy parentState base' w =
     (let s = length (states w) in
      (Prox s, w\<lparr>states := states w @ [createState parentState base'],
                 registry := registry w @ [s]\<rparr>))"

text \<open>The number of states that are not modified: the measure of \<open>markChanged\<close>.\<close>

definition unmodifiedCount :: "world \<Rightarrow> nat" where
  "unmodifiedCount w = length (filter (\<lambda>st. \<not> modified st) (states w))"

text \<open>
  \<^verbatim>\<open>markChanged\<close>. The recursion follows the parent link and stops at a state that is
  already modified; every call that recurses has turned one more state to modified, which
  is why it terminates.
\<close>

function markChanged :: "nat \<Rightarrow> world \<Rightarrow> world" where
  "markChanged s w =
     (if s < length (states w) \<and> \<not> modified (states w ! s) then
        (let st = states w ! s;
             w1 = w\<lparr>states := (states w)[s := st\<lparr>modified := True\<rparr>]\<rparr>;
             (c, w2) = shallowCopy (base st) w1;
             w3 = w2\<lparr>states := (states w2)[s := (states w2 ! s)\<lparr>copy := c\<rparr>]\<rparr>;
             w4 = objectAssign c (proxies st) w3
         in (case parent st of Some p \<Rightarrow> markChanged p w4 | None \<Rightarrow> w4))
      else w)"
  by pat_completeness auto
termination
proof (relation "measure (\<lambda>(s, w). unmodifiedCount w)")
  show "wf (measure (\<lambda>(s, w). unmodifiedCount w))" by simp
next
  fix s w st w1 x c w2 w3 w4 p
  assume a: "s < length (states w) \<and> \<not> modified (states w ! s)"
    and st: "st = states w ! s"
    and w1: "w1 = w\<lparr>states := (states w)[s := st\<lparr>modified := True\<rparr>]\<rparr>"
    and x: "x = shallowCopy (base st) w1" "(c, w2) = x"
    and w3: "w3 = w2\<lparr>states := (states w2)[s := (states w2 ! s)\<lparr>copy := c\<rparr>]\<rparr>"
    and w4: "w4 = objectAssign c (proxies st) w3"
    and p: "parent st = Some p"
  have "states (foldl (\<lambda>w' (k, y). setProp c k y w') u src) = states u" for u src
    by (induction src arbitrary: u) (auto simp: setProp_def split: val.splits)
  then have assign: "states w4 = states w3" by (simp add: w4 objectAssign_def)
  have w2: "states w2 = states w1"
    using x by (auto simp: shallowCopy_def)
  have less: "length (filter (\<lambda>st. \<not> modified st) (xs[i := (xs ! i)\<lparr>modified := True, copy := c\<rparr>]))
         < length (filter (\<lambda>st. \<not> modified st) xs)"
    if "i < length xs" and "\<not> modified (xs ! i)" for xs i
    using that
  proof (induction xs arbitrary: i)
    case Nil
    then show ?case by simp
  next
    case (Cons y ys)
    show ?case
    proof (cases i)
      case 0
      with Cons.prems show ?thesis by simp
    next
      case (Suc j)
      with Cons.prems Cons.IH [of j] show ?thesis by simp
    qed
  qed
  have "states w4 = (states w)[s := (states w ! s)\<lparr>modified := True, copy := c\<rparr>]"
    using a by (simp add: assign w3 w2 w1 st)
  then show "((p, w4), (s, w)) \<in> measure (\<lambda>(s, w). unmodifiedCount w)"
    using a less [of s "states w"] by (simp add: unmodifiedCount_def)
qed

subsection \<open>The traps\<close>

text \<open>
  Each trap takes the index of the draft state that is the proxy's target. \<open>set\<close> and
  \<open>deleteProperty\<close> are given first, because a store into the cache of a state can reach
  the \<open>set\<close> trap of a child draft.
\<close>

definition set_trap :: "nat \<Rightarrow> key \<Rightarrow> val \<Rightarrow> world \<Rightarrow> bool \<times> world" where
  "set_trap s prop value w =
     (let st = states w ! s in
      if \<not> modified st \<and>
         ((inOp w (base st) prop \<and> is_equal (getProp w (base st) prop) value) \<or>
          (has (proxies st) prop \<and> strict_eq (lookup (proxies st) prop) value))
      then (True, w)
      else
        (let w1 = (if \<not> modified st then markChanged s w else w)
         in (True, setProp (copy (states w1 ! s)) prop value w1)))"

definition deleteProperty :: "nat \<Rightarrow> key \<Rightarrow> world \<Rightarrow> bool \<times> world" where
  "deleteProperty s prop w =
     (let w1 = markChanged s w
      in (True, deleteProp (copy (states w1 ! s)) prop w1))"

text \<open>
  The runtime reaches a trap only through a proxy that exists and has not been revoked;
  any operation on a revoked proxy is a \<^verbatim>\<open>TypeError\<close>.
\<close>

definition live :: "world \<Rightarrow> nat \<Rightarrow> bool" where
  "live w p = (p < length (states w) \<and> p \<notin> revoked w)"

text \<open>
  \<^verbatim>\<open>state.proxies[prop] = draft\<close>, the assignment of line 94. It is reached only when the
  cache has no own property \<^verbatim>\<open>prop\<close>, so the assignment consults the prototype chain of
  the cache. While the prototype is \<^verbatim>\<open>Object.prototype\<close>, the key \<^verbatim>\<open>__proto__\<close> finds the
  setter inherited from it, which makes the draft the prototype of the cache and adds no
  property; any other key becomes an own property. Once the prototype is a draft, the
  assignment is handed to that draft: the runtime calls the \<open>set\<close> trap of its state, or
  raises a \<^verbatim>\<open>TypeError\<close> when that draft has been revoked, and the cache gets no
  property. The value of the assignment is the draft. (Line 94 is the only store into the
  cache and its value is always a draft, so the prototype is never replaced by anything
  else.)
\<close>

definition cacheStore :: "nat \<Rightarrow> key \<Rightarrow> val \<Rightarrow> world \<Rightarrow> (error + val) \<times> world" where
  "cacheStore s prop draft w =
     (let st = states w ! s in
      case proxiesProto st of
        Some (Prox q) \<Rightarrow>
          if live w q then (Inr draft, snd (set_trap q prop draft w)) else (Inl TypeError, w)
      | _ \<Rightarrow>
          if prop = Prop ''__proto__''
          then (Inr draft, w\<lparr>states := (states w)[s := st\<lparr>proxiesProto := Some draft\<rparr>]\<rparr>)
          else (Inr draft,
                w\<lparr>states := (states w)[s := st\<lparr>proxies := AList.update prop draft (proxies st)\<rparr>]\<rparr>))"

text \<open>
  \<open>get\<close> returns the value read and the world, because a read may create and cache a
  child draft; the error is the one that the store into the cache may raise.
\<close>

definition get :: "nat \<Rightarrow> key \<Rightarrow> world \<Rightarrow> (error + val) \<times> world" where
  "get s prop w =
     (let st = states w ! s in
      if prop = PROXY_STATE then (Inr (StateV s), w)
      else if modified st then
        (let value = getProp w (copy st) prop in
         if strict_eq value (getProp w (base st) prop) \<and> isProxyable w value
         then (let (p, w1) = createProxy (Some s) value w
               in (Inr p, setProp (copy st) prop p w1))
         else (Inr value, w))
      else
        (if has (proxies st) prop then (Inr (lookup (proxies st) prop), w)
         else
           (let value = getProp w (base st) prop in
            if \<not> isProxy value \<and> isProxyable w value
            then (let (p, w1) = createProxy (Some s) value w
                  in cacheStore s prop p w1)
            else (Inr value, w))))"

definition hasTrap :: "nat \<Rightarrow> key \<Rightarrow> world \<Rightarrow> bool" where
  "hasTrap s prop w = inOp w (source (states w ! s)) prop"

definition ownKeys :: "nat \<Rightarrow> world \<Rightarrow> key list" where
  "ownKeys s w =
     (case objAt w (source (states w ! s)) of Some ob \<Rightarrow> map fst (ents ob) | None \<Rightarrow> [])"

definition defineProperty :: "world \<Rightarrow> (error + bool) \<times> world" where
  "defineProperty w =
     (Inl (Error ''Immer does currently not support defining properties on draft objects''), w)"

definition setPrototypeOf :: "world \<Rightarrow> (error + bool) \<times> world" where
  "setPrototypeOf w = (Inl (Error ''Don't even try this...''), w)"

subsection \<open>Producers\<close>

text \<open>
  The mutation function is arbitrary code that works on drafts. It is modelled by the tree
  of the draft operations it performs: each node names the draft it operates on, and the
  continuation receives what the operation returned. \<open>New\<close> allocates a container of the
  producer's own, \<open>Try\<close> is \<^verbatim>\<open>try { c } catch (e) { h e }\<close> around the rest of the body, and
  the leaves return a value or throw one. A value that the producer throws is kept apart
  from the errors that the module raises (\<open>Thrown\<close> and \<open>Error\<close>). The trap
  \<^verbatim>\<open>getOwnPropertyDescriptor\<close>, which only reads the state, and calls of \<^verbatim>\<open>produceProxy\<close>
  from inside a producer are not modelled.
\<close>

datatype prog =
    Return val
  | Throw val
  | Get nat key "val \<Rightarrow> prog"
  | Has nat key "bool \<Rightarrow> prog"
  | OwnKeys nat "key list \<Rightarrow> prog"
  | Set nat key val prog
  | Delete nat key prog
  | DefineProperty nat key val
  | SetPrototypeOf nat val
  | New kind "(key \<times> val) list" "val \<Rightarrow> prog"
  | Try prog "error \<Rightarrow> prog"

primrec run :: "prog \<Rightarrow> world \<Rightarrow> (error + val) \<times> world" where
  "run (Return v) w = (Inr v, w)"
| "run (Throw v) w = (Inl (Thrown v), w)"
| "run (Get p k f) w =
     (if live w p
      then (case get p k w of (Inl e, w') \<Rightarrow> (Inl e, w') | (Inr v, w') \<Rightarrow> run (f v) w')
      else (Inl TypeError, w))"
| "run (Has p k f) w =
     (if live w p then run (f (hasTrap p k w)) w else (Inl TypeError, w))"
| "run (OwnKeys p f) w =
     (if live w p then run (f (ownKeys p w)) w else (Inl TypeError, w))"
| "run (Set p k v c) w =
     (if live w p then run c (snd (set_trap p k v w)) else (Inl TypeError, w))"
| "run (Delete p k c) w =
     (if live w p then run c (snd (deleteProperty p k w)) else (Inl TypeError, w))"
| "run (DefineProperty p k v) w =
     (if live w p
      then (case defineProperty w of (Inl e, w') \<Rightarrow> (Inl e, w') | (Inr b, w') \<Rightarrow> (Inr Undefined, w'))
      else (Inl TypeError, w))"
| "run (SetPrototypeOf p v) w =
     (if live w p
      then (case setPrototypeOf w of (Inl e, w') \<Rightarrow> (Inl e, w') | (Inr b, w') \<Rightarrow> (Inr Undefined, w'))
      else (Inl TypeError, w))"
| "run (New kd es f) w =
     run (f (Ref (length (heap w)))) (w\<lparr>heap := heap w @ [\<lparr>kind = kd, ents = es\<rparr>]\<rparr>)"
| "run (Try c h) w =
     (case run c w of (Inl e, w') \<Rightarrow> run (h e) w' | (Inr v, w') \<Rightarrow> (Inr v, w'))"

subsection \<open>Finalization\<close>

text \<open>
  Modelled from the spec: \<^verbatim>\<open>finalize\<close> of \<^verbatim>\<open>./common\<close>, which is not among the sources.
  The spec's finalizer returns a value that is neither a draft nor a plain container
  unchanged; returns the base of a draft whose state is not modified; for a draft whose
  state is modified produces a new plain container of the same kind that holds, for each
  key of the copy, the finalized value; and walks a plain container that is no draft in
  place, finalizing its entries. The recursion follows the object graph, which may be
  cyclic, so it carries fuel: the fuel bounds the nesting depth, and \<open>None\<close> is the
  outcome of a walk that the fuel did not suffice for.
\<close>

fun finalize :: "nat \<Rightarrow> val \<Rightarrow> world \<Rightarrow> val option \<times> world"
  and finalizeEach :: "nat \<Rightarrow> (key \<times> val) list \<Rightarrow> world \<Rightarrow> (key \<times> val) list option \<times> world"
  where
  "finalize n v w =
     (case v of
        Prox p \<Rightarrow>
          (if p < length (states w) then
             (if modified (states w ! p) then
                (case objAt w (copy (states w ! p)) of
                   None \<Rightarrow> (Some (copy (states w ! p)), w)
                 | Some ob \<Rightarrow>
                     (case finalizeEach n (ents ob) w of
                        (None, w') \<Rightarrow> (None, w')
                      | (Some es, w') \<Rightarrow>
                          (Some (Ref (length (heap w'))),
                           w'\<lparr>heap := heap w' @ [\<lparr>kind = kind ob, ents = es\<rparr>]\<rparr>)))
              else (Some (base (states w ! p)), w))
           else (Some v, w))
      | Ref a \<Rightarrow>
          (if isProxyable w v then
             (case finalizeEach n (ents (heap w ! a)) w of
                (None, w') \<Rightarrow> (None, w')
              | (Some es, w') \<Rightarrow> (Some v, w'\<lparr>heap := (heap w')[a := (heap w' ! a)\<lparr>ents := es\<rparr>]\<rparr>))
           else (Some v, w))
      | _ \<Rightarrow> (Some v, w))"
| "finalizeEach n [] w = (Some [], w)"
| "finalizeEach 0 (e # es) w = (None, w)"
| "finalizeEach (Suc m) (e # es) w =
     (case finalize m (snd e) w of
        (None, w') \<Rightarrow> (None, w')
      | (Some x, w') \<Rightarrow>
          (case finalizeEach (Suc m) es w' of
             (None, w'') \<Rightarrow> (None, w'')
           | (Some es', w'') \<Rightarrow> (Some ((fst e, x) # es'), w'')))"

subsection \<open>\<^verbatim>\<open>produceProxy\<close>\<close>

definition revoke :: "nat \<Rightarrow> world \<Rightarrow> world" where
  "revoke p w = w\<lparr>revoked := insert p (revoked w)\<rparr>"

text \<open>\<^verbatim>\<open>v[PROXY_STATE]\<close> on a draft goes through the \<open>get\<close> trap; \<^verbatim>\<open>.modified\<close> reads the flag.\<close>

definition proxyState :: "world \<Rightarrow> val \<Rightarrow> val" where
  "proxyState w v =
     (case v of
        Prox p \<Rightarrow> (case fst (get p PROXY_STATE w) of Inr sv \<Rightarrow> sv | Inl e \<Rightarrow> Undefined)
      | _ \<Rightarrow> Undefined)"

definition stateModified :: "world \<Rightarrow> val \<Rightarrow> bool" where
  "stateModified w sv = (case sv of StateV s \<Rightarrow> modified (states w ! s) | _ \<Rightarrow> False)"

text \<open>
  The end of the \<^verbatim>\<open>try\<close> block once \<^verbatim>\<open>finalize\<close> has returned: every proxy on the registry
  is revoked and the result is returned.
\<close>

definition revokeAndReturn :: "val option \<times> world \<Rightarrow> (error + val) option \<times> world" where
  "revokeAndReturn r =
     (case r of
        (None, w) \<Rightarrow> (None, w)
      | (Some result, w) \<Rightarrow> (Some (Inr result), each (registry w) revoke w))"

text \<open>
  \<^verbatim>\<open>produceProxy\<close>. The outcome is \<open>Some (Inr result)\<close> for a returned result,
  \<open>Some (Inl e)\<close> for an error that leaves the function, and \<open>None\<close> when finalization ran
  out of fuel. The last line is the \<^verbatim>\<open>finally\<close> block, which runs on every path.
\<close>

definition produceProxy ::
  "nat \<Rightarrow> val \<Rightarrow> (val \<Rightarrow> prog) \<Rightarrow> world \<Rightarrow> (error + val) option \<times> world" where
  "produceProxy fuel baseState producer w =
     (let previousProxies = registry w;
          w0 = w\<lparr>registry := []\<rparr>;
          (rootProxy, w1) = createProxy None baseState w0;
          (returned, w2) = run (producer rootProxy) w1;
          (outcome, w3) =
            (case returned of
               Inl e \<Rightarrow> (Some (Inl e), w2)
             | Inr returnValue \<Rightarrow>
                 if \<not> strict_eq returnValue Undefined \<and> \<not> strict_eq returnValue rootProxy then
                   (if stateModified w2 (proxyState w2 rootProxy)
                    then (Some (Inl (Error RETURNED_AND_MODIFIED_ERROR)), w2)
                    else revokeAndReturn (finalize fuel returnValue w2))
                 else revokeAndReturn (finalize fuel rootProxy w2))
      in (outcome, w3\<lparr>registry := previousProxies\<rparr>))"

text \<open>A world in which no draft has been created yet, over a given heap.\<close>

definition initial :: "obj list \<Rightarrow> world" where
  "initial h = \<lparr>heap = h, states = [], revoked = {}, registry = []\<rparr>"


section \<open>Notions for the statements and the proofs\<close>

subsection \<open>One step of escalation\<close>

text \<open>
  The proofs about \<open>markChanged\<close> use its first step as one update of the world:
  \<open>copyOf\<close> is the container that \<open>shallowCopy\<close> allocates, and \<open>markStep\<close> is the world
  after the state is marked, copied and overlaid, before the parent is visited.
\<close>

definition copyOf :: "world \<Rightarrow> val \<Rightarrow> obj" where
  "copyOf w v = (case objAt w v of Some ob \<Rightarrow> ob | None \<Rightarrow> \<lparr>kind = PlainObject, ents = []\<rparr>)"

definition markStep :: "nat \<Rightarrow> world \<Rightarrow> world" where
  "markStep s w =
     w\<lparr>states := (states w)[s := (states w ! s)\<lparr>modified := True, copy := Ref (length (heap w))\<rparr>],
       heap := heap w @
          [(copyOf w (base (states w ! s)))
             \<lparr>ents := foldl (\<lambda>al (k, x). AList.update k x al)
                        (ents (copyOf w (base (states w ! s)))) (proxies (states w ! s))\<rparr>]\<rparr>"

text \<open>
  What \<open>markChanged\<close> does to the world, state by state: the heap only grows, and a state
  is either left as it was or turned to modified with a copy allocated on the way.
\<close>

definition escalated :: "world \<Rightarrow> world \<Rightarrow> bool" where
  "escalated w w' =
     (length (states w') = length (states w) \<and>
      length (heap w) \<le> length (heap w') \<and>
      take (length (heap w)) (heap w') = heap w \<and>
      revoked w' = revoked w \<and> registry w' = registry w \<and>
      (\<forall>t < length (states w).
         states w' ! t = states w ! t \<or>
         (\<not> modified (states w ! t) \<and>
          (\<exists>c. length (heap w) \<le> c \<and> c < length (heap w') \<and>
               states w' ! t = (states w ! t)\<lparr>modified := True, copy := Ref c\<rparr>))))"

subsection \<open>The start of a call\<close>

text \<open>
  The root draft of a call that starts in world \<open>w\<close>, and the world in which the producer
  starts: the registry is fresh and the root state has been created.
\<close>

definition rootDraft :: "world \<Rightarrow> val" where
  "rootDraft w = Prox (length (states w))"

definition entered :: "val \<Rightarrow> world \<Rightarrow> world" where
  "entered baseState w = snd (createProxy None baseState (w\<lparr>registry := []\<rparr>))"

text \<open>Every state created since the call was entered is on the registry.\<close>

definition registered :: "nat \<Rightarrow> world \<Rightarrow> bool" where
  "registered n w = ({n ..< length (states w)} \<subseteq> set (registry w))"

subsection \<open>Runs that write\<close>

text \<open>
  Whether the run of a producer from a world performs a write or a delete on a live draft.
\<close>

primrec mutates :: "prog \<Rightarrow> world \<Rightarrow> bool" where
  "mutates (Return v) w = False"
| "mutates (Throw v) w = False"
| "mutates (Get p k f) w =
     (if live w p
      then (case get p k w of (Inl e, w') \<Rightarrow> False | (Inr v, w') \<Rightarrow> mutates (f v) w')
      else False)"
| "mutates (Has p k f) w = (if live w p then mutates (f (hasTrap p k w)) w else False)"
| "mutates (OwnKeys p f) w = (if live w p then mutates (f (ownKeys p w)) w else False)"
| "mutates (Set p k v c) w = live w p"
| "mutates (Delete p k c) w = live w p"
| "mutates (DefineProperty p k v) w = False"
| "mutates (SetPrototypeOf p v) w = False"
| "mutates (New kd es f) w =
     mutates (f (Ref (length (heap w)))) (w\<lparr>heap := heap w @ [\<lparr>kind = kd, ents = es\<rparr>]\<rparr>)"
| "mutates (Try c h) w =
     (mutates c w \<or> (case run c w of (Inl e, w') \<Rightarrow> mutates (h e) w' | (Inr v, w') \<Rightarrow> False))"

text \<open>
  Whether the run of a producer from a world reads the key \<^verbatim>\<open>__proto__\<close> through a live
  draft.
\<close>

primrec readsProto :: "prog \<Rightarrow> world \<Rightarrow> bool" where
  "readsProto (Return v) w = False"
| "readsProto (Throw v) w = False"
| "readsProto (Get p k f) w =
     (if live w p
      then k = Prop ''__proto__'' \<or>
           (case get p k w of (Inl e, w') \<Rightarrow> False | (Inr v, w') \<Rightarrow> readsProto (f v) w')
      else False)"
| "readsProto (Has p k f) w = (if live w p then readsProto (f (hasTrap p k w)) w else False)"
| "readsProto (OwnKeys p f) w = (if live w p then readsProto (f (ownKeys p w)) w else False)"
| "readsProto (Set p k v c) w =
     (if live w p then readsProto c (snd (set_trap p k v w)) else False)"
| "readsProto (Delete p k c) w =
     (if live w p then readsProto c (snd (deleteProperty p k w)) else False)"
| "readsProto (DefineProperty p k v) w = False"
| "readsProto (SetPrototypeOf p v) w = False"
| "readsProto (New kd es f) w =
     readsProto (f (Ref (length (heap w)))) (w\<lparr>heap := heap w @ [\<lparr>kind = kd, ents = es\<rparr>]\<rparr>)"
| "readsProto (Try c h) w =
     (readsProto c w \<or>
      (case run c w of (Inl e, w') \<Rightarrow> readsProto (h e) w' | (Inr v, w') \<Rightarrow> False))"

text \<open>The cache of every state still has the prototype it was created with.\<close>

definition cachesPristine :: "world \<Rightarrow> bool" where
  "cachesPristine w = list_all (\<lambda>st. proxiesProto st = None) (states w)"

subsection \<open>Ancestors\<close>

text \<open>
  \<open>ancestor w s p\<close>: the state \<open>p\<close> is reached from the state \<open>s\<close> by following parent
  links, at least one.
\<close>

inductive ancestor :: "world \<Rightarrow> nat \<Rightarrow> nat \<Rightarrow> bool" for w where
  direct: "s < length (states w) \<Longrightarrow> parent (states w ! s) = Some p \<Longrightarrow> ancestor w s p"
| further: "ancestor w s q \<Longrightarrow> q < length (states w) \<Longrightarrow> parent (states w ! q) = Some p \<Longrightarrow>
            ancestor w s p"

code_pred ancestor .

text \<open>Every ancestor of a modified state is modified.\<close>

definition upwardClosed :: "world \<Rightarrow> bool" where
  "upwardClosed w =
     (\<forall>s p. s < length (states w) \<and> modified (states w ! s) \<and> ancestor w s p \<longrightarrow>
            p < length (states w) \<and> modified (states w ! p))"

text \<open>The same for one parent link; it is the form that the operations preserve.\<close>

definition parentsClosed :: "world \<Rightarrow> bool" where
  "parentsClosed w =
     (\<forall>s < length (states w). \<forall>p. parent (states w ! s) = Some p \<longrightarrow>
        p < length (states w) \<and> (modified (states w ! s) \<longrightarrow> modified (states w ! p)))"

text \<open>Every state that is modified in \<open>w\<close> is still there and modified in \<open>w'\<close>.\<close>

definition keepsModified :: "world \<Rightarrow> world \<Rightarrow> bool" where
  "keepsModified w w' =
     (\<forall>s < length (states w). modified (states w ! s) \<longrightarrow>
        s < length (states w') \<and> modified (states w' ! s))"

subsection \<open>Values that hold no draft\<close>

text \<open>
  \<open>plain h n v\<close>: the containers reachable from \<open>v\<close> in the heap \<open>h\<close> nest at most \<open>n\<close> deep
  and hold no draft. Finalizing such a value with fuel \<open>n\<close> returns it and changes nothing.
\<close>

fun plain :: "obj list \<Rightarrow> nat \<Rightarrow> val \<Rightarrow> bool" where
  "plain h n (Prox p) = False"
| "plain h 0 (Ref a) = (a < length h \<and> (kind (h ! a) = Exotic \<or> ents (h ! a) = []))"
| "plain h (Suc m) (Ref a) =
     (a < length h \<and> (kind (h ! a) = Exotic \<or> (\<forall>e \<in> set (ents (h ! a)). plain h m (snd e))))"
| "plain h n v = True"




subsection \<open>Example data\<close>

text \<open>The heap of the base \<^verbatim>\<open>{a: {b: 1}, c: 1}\<close>: the root at address 0, \<^verbatim>\<open>{b: 1}\<close> at address 1.\<close>

definition exampleHeap :: "obj list" where
  "exampleHeap =
     [\<lparr>kind = PlainObject, ents = [(Prop ''a'', Ref 1), (Prop ''c'', Num 1)]\<rparr>,
      \<lparr>kind = PlainObject, ents = [(Prop ''b'', Num 1)]\<rparr>]"

text \<open>
  The world of a call on that base after the producer has read \<^verbatim>\<open>draft.a\<close>: the root state
  has cached the child draft, and nothing is modified.
\<close>

definition exampleCached :: world where
  "exampleCached =
     \<lparr>heap = [\<lparr>kind = PlainObject, ents = [(Prop ''a'', Ref 1), (Prop ''c'', Num 1)]\<rparr>,
              \<lparr>kind = PlainObject, ents = [(Prop ''b'', Num 1)]\<rparr>],
      states = [\<lparr>modified = False, finalized = False, parent = None, base = Ref 0,
                 copy = Undefined, proxies = [(Prop ''a'', Prox 1)], proxiesProto = None\<rparr>,
                \<lparr>modified = False, finalized = False, parent = Some 0, base = Ref 1,
                 copy = Undefined, proxies = [], proxiesProto = None\<rparr>],
      revoked = {}, registry = [0, 1]\<rparr>"

text \<open>A producer that writes \<^verbatim>\<open>draft.c = 2\<close> and returns \<^verbatim>\<open>7\<close>.\<close>

definition writeAndReturn :: "val \<Rightarrow> prog" where
  "writeAndReturn d =
     (case d of Prox r \<Rightarrow> Set r (Prop ''c'') (Num 2) (Return (Num 7))
              | _ \<Rightarrow> Throw (Str ''no draft''))"

text \<open>A producer that reads \<^verbatim>\<open>draft.a\<close>, which creates a child draft, and then throws.\<close>

definition readThenThrow :: "val \<Rightarrow> prog" where
  "readThenThrow d =
     (case d of Prox r \<Rightarrow> Get r (Prop ''a'') (\<lambda>a. Throw (Str ''boom''))
              | _ \<Rightarrow> Throw (Str ''no draft''))"

text \<open>A producer that reads \<^verbatim>\<open>draft.a\<close> and \<^verbatim>\<open>draft.a.b\<close> and returns nothing.\<close>

definition readOnly :: "val \<Rightarrow> prog" where
  "readOnly d =
     (case d of
        Prox r \<Rightarrow> Get r (Prop ''a'')
          (\<lambda>a. case a of Prox p \<Rightarrow> Get p (Prop ''b'') (\<lambda>x. Return Undefined)
                        | _ \<Rightarrow> Return Undefined)
      | _ \<Rightarrow> Throw (Str ''no draft''))"

text \<open>A producer that writes \<^verbatim>\<open>draft.a.b = 2\<close>.\<close>

definition deepWrite :: "val \<Rightarrow> prog" where
  "deepWrite d =
     (case d of
        Prox r \<Rightarrow> Get r (Prop ''a'')
          (\<lambda>a. case a of Prox p \<Rightarrow> Set p (Prop ''b'') (Num 2) (Return Undefined)
                        | _ \<Rightarrow> Return Undefined)
      | _ \<Rightarrow> Throw (Str ''no draft''))"

text \<open>A producer whose only action is \<^verbatim>\<open>delete draft[k]\<close>.\<close>

definition deleteOnly :: "key \<Rightarrow> val \<Rightarrow> prog" where
  "deleteOnly k d = (case d of Prox r \<Rightarrow> Delete r k (Return Undefined) | _ \<Rightarrow> Return Undefined)"

text \<open>
  The heap of the base \<^verbatim>\<open>JSON.parse('{"__proto__": {"b": 1}}')\<close>: the root, which has an own
  property named \<^verbatim>\<open>__proto__\<close>, at address 0, and \<^verbatim>\<open>{b: 1}\<close> at address 1.
\<close>

definition protoHeap :: "obj list" where
  "protoHeap =
     [\<lparr>kind = PlainObject, ents = [(Prop ''__proto__'', Ref 1)]\<rparr>,
      \<lparr>kind = PlainObject, ents = [(Prop ''b'', Num 1)]\<rparr>]"

text \<open>The world in which the producer of a call on that base starts, and the world after
  the producer has read \<^verbatim>\<open>draft.__proto__\<close> once.\<close>

definition protoStart :: world where
  "protoStart = entered (Ref 0) (initial protoHeap)"

definition protoReadOnce :: world where
  "protoReadOnce = snd (get 0 (Prop ''__proto__'') protoStart)"

text \<open>A producer that reads \<^verbatim>\<open>draft.__proto__\<close> twice and returns nothing.\<close>

definition readProtoTwice :: "val \<Rightarrow> prog" where
  "readProtoTwice d =
     (case d of
        Prox r \<Rightarrow> Get r (Prop ''__proto__'')
          (\<lambda>x. Get r (Prop ''__proto__'') (\<lambda>y. Return Undefined))
      | _ \<Rightarrow> Throw (Str ''no draft''))"



section \<open>Basic facts\<close>

declare finalize.simps(1) [simp del]
declare markChanged.simps [simp del]

lemma heap_setProp_states [simp]: "states (setProp v k x w) = states w"
  by (simp add: setProp_def split: val.splits)

lemma states_objectAssign [simp]: "states (objectAssign t src w) = states w"
proof -
  have "states (foldl (\<lambda>w' (k, x). setProp t k x w') w src) = states w"
    by (induction src arbitrary: w) (auto)
  then show ?thesis by (simp add: objectAssign_def)
qed

lemma states_shallowCopy [simp]: "states (snd (shallowCopy v w)) = states w"
  by (simp add: shallowCopy_def)

lemma states_setProp2: "states (deleteProp v k w) = states w"
  by (simp add: deleteProp_def split: val.splits)

lemma length_heap_setProp: "length (heap (setProp v k x w)) = length (heap w)"
  by (simp add: setProp_def split: val.splits)

lemma foldl_update_map_of:
  "map_of (foldl (\<lambda>al (k, x). AList.update k x al) al src) = map_of al ++ map_of (rev src)"
proof (induction src arbitrary: al)
  case Nil
  then show ?case by simp
next
  case (Cons e src)
  obtain k x where e: "e = (k, x)" by (cases e)
  have "map_of (AList.update k x al) ++ map_of (rev src) = map_of al ++ map_of (rev src @ [(k, x)])"
    by (rule ext) (simp add: update_conv' map_add_def split: option.splits)
  then show ?case
    by (simp add: e Cons.IH)
qed

lemma objectAssign_Ref:
  "objectAssign (Ref c) src w =
     w\<lparr>heap := (heap w)[c := (heap w ! c)\<lparr>ents := foldl (\<lambda>al (k, x). AList.update k x al) (ents (heap w ! c)) src\<rparr>]\<rparr>"
proof (induction src arbitrary: w)
  case Nil
  then show ?case by (simp add: objectAssign_def)
next
  case (Cons e src)
  obtain k x where e: "e = (k, x)" by (cases e)
  have step: "objectAssign (Ref c) (e # src) w = objectAssign (Ref c) src (setProp (Ref c) k x w)"
    by (simp add: objectAssign_def e)
  show ?case
  proof (cases "c < length (heap w)")
    case True
    then show ?thesis
      by (simp add: step Cons.IH) (simp add: setProp_def e)
  next
    case False
    then show ?thesis
      by (simp add: step Cons.IH) (simp add: setProp_def e list_update_beyond)
  qed
qed


lemma objAt_states_upd [simp]: "objAt (w\<lparr>states := xs\<rparr>) v = objAt w v"
  by (simp add: objAt_def split: val.splits)

lemma markChanged_unfold:
  assumes "s < length (states w)" and "\<not> modified (states w ! s)"
  shows "markChanged s w =
           (case parent (states w ! s) of Some p \<Rightarrow> markChanged p (markStep s w)
                                        | None \<Rightarrow> markStep s w)"
  using assms
  by (subst markChanged.simps)
     (simp add: shallowCopy_def copyOf_def Let_def objectAssign_Ref markStep_def split: option.splits)

lemma markChanged_id:
  "\<not> (s < length (states w) \<and> \<not> modified (states w ! s)) \<Longrightarrow> markChanged s w = w"
  by (subst markChanged.simps) auto

lemma markChanged_step_induct [consumes 0, case_names step]:
  assumes "\<And>s w. (\<And>p. s < length (states w) \<Longrightarrow> \<not> modified (states w ! s) \<Longrightarrow>
                     parent (states w ! s) = Some p \<Longrightarrow> P p (markStep s w)) \<Longrightarrow> P s w"
  shows "P s w"
proof (induction s w rule: markChanged.induct)
  case (1 s w)
  show ?case
  proof (rule assms)
    fix p
    assume a: "s < length (states w)" "\<not> modified (states w ! s)"
      and p: "parent (states w ! s) = Some p"
    from "1.IH" [OF _ refl refl _ refl refl refl p] a
    show "P p (markStep s w)"
      by (simp add: shallowCopy_def copyOf_def objectAssign_Ref markStep_def)
  qed
qed


lemma markStep_simps [simp]:
  "states (markStep s w) =
     (states w)[s := (states w ! s)\<lparr>modified := True, copy := Ref (length (heap w))\<rparr>]"
  "length (heap (markStep s w)) = Suc (length (heap w))"
  "revoked (markStep s w) = revoked w"
  "registry (markStep s w) = registry w"
  "take (length (heap w)) (heap (markStep s w)) = heap w"
  by (simp_all add: markStep_def)

lemma escalated_refl: "escalated w w"
  by (simp add: escalated_def)

lemma escalated_markStep:
  assumes "s < length (states w)" and "\<not> modified (states w ! s)"
  shows "escalated w (markStep s w)"
  unfolding escalated_def
proof (intro conjI allI impI)
  fix t assume t: "t < length (states w)"
  show "states (markStep s w) ! t = states w ! t \<or>
         (\<not> modified (states w ! t) \<and>
          (\<exists>c. length (heap w) \<le> c \<and> c < length (heap (markStep s w)) \<and>
               states (markStep s w) ! t = (states w ! t)\<lparr>modified := True, copy := Ref c\<rparr>))"
  proof (cases "t = s")
    case True
    with assms show ?thesis by (auto intro!: exI [of _ "length (heap w)"])
  next
    case False
    then show ?thesis by simp
  qed
qed simp_all

lemma escalated_trans:
  assumes "escalated w w1" and "escalated w1 w2"
  shows "escalated w w2"
  unfolding escalated_def
proof (intro conjI allI impI)
  have len: "length (heap w) \<le> length (heap w1)" "length (heap w1) \<le> length (heap w2)"
    using assms by (simp_all add: escalated_def)
  have "take (length (heap w)) (heap w2) = take (length (heap w)) (take (length (heap w1)) (heap w2))"
    using len by (simp add: min_def)
  also have "\<dots> = heap w"
    using assms by (simp add: escalated_def)
  finally show "take (length (heap w)) (heap w2) = heap w" .
  fix t assume t: "t < length (states w)"
  then have t1: "t < length (states w1)" using assms by (simp add: escalated_def)
  from assms(1) t have a: "states w1 ! t = states w ! t \<or>
         (\<not> modified (states w ! t) \<and>
          (\<exists>c. length (heap w) \<le> c \<and> c < length (heap w1) \<and>
               states w1 ! t = (states w ! t)\<lparr>modified := True, copy := Ref c\<rparr>))"
    by (simp add: escalated_def)
  from assms(2) t1 have b: "states w2 ! t = states w1 ! t \<or>
         (\<not> modified (states w1 ! t) \<and>
          (\<exists>c. length (heap w1) \<le> c \<and> c < length (heap w2) \<and>
               states w2 ! t = (states w1 ! t)\<lparr>modified := True, copy := Ref c\<rparr>))"
    by (simp add: escalated_def)
  from a b len show "states w2 ! t = states w ! t \<or>
         (\<not> modified (states w ! t) \<and>
          (\<exists>c. length (heap w) \<le> c \<and> c < length (heap w2) \<and>
               states w2 ! t = (states w ! t)\<lparr>modified := True, copy := Ref c\<rparr>))"
    by (elim disjE conjE exE) (auto intro: order_trans less_le_trans)
qed (use assms in \<open>auto simp: escalated_def\<close>)

lemma escalated_markChanged: "escalated w (markChanged s w)"
proof (induction s w rule: markChanged_step_induct)
  case (step s w)
  show ?case
  proof (cases "s < length (states w) \<and> \<not> modified (states w ! s)")
    case False
    then show ?thesis by (simp add: markChanged_id escalated_refl)
  next
    case True
    then have st: "escalated w (markStep s w)" by (simp add: escalated_markStep)
    show ?thesis
    proof (cases "parent (states w ! s)")
      case None
      with True st show ?thesis by (simp add: markChanged_unfold)
    next
      case (Some p)
      with True step [of p] have "escalated (markStep s w) (markChanged p (markStep s w))" by simp
      with st have "escalated w (markChanged p (markStep s w))" by (rule escalated_trans)
      with True Some show ?thesis by (simp add: markChanged_unfold)
    qed
  qed
qed


lemma markChanged_fresh:
  assumes "s < length (states w)" and "\<not> modified (states w ! s)"
  shows "states (markChanged s w) ! s =
           (states w ! s)\<lparr>modified := True, copy := Ref (length (heap w))\<rparr>"
    and "length (heap w) < length (heap (markChanged s w))"
    and "heap (markChanged s w) ! length (heap w) =
           (copyOf w (base (states w ! s)))
             \<lparr>ents := foldl (\<lambda>al (k, x). AList.update k x al)
                        (ents (copyOf w (base (states w ! s)))) (proxies (states w ! s))\<rparr>"
proof -
  obtain w' where w': "markChanged s w = w'" and e: "escalated (markStep s w) w'"
    using assms escalated_markChanged [of "markStep s w"] escalated_refl [of "markStep s w"]
    by (cases "parent (states w ! s)") (auto simp: markChanged_unfold)
  have s1: "states (markStep s w) ! s =
           (states w ! s)\<lparr>modified := True, copy := Ref (length (heap w))\<rparr>"
    using assms by simp
  from e assms have "states w' ! s = states (markStep s w) ! s"
    unfolding escalated_def using s1 by auto
  with s1 w' show "states (markChanged s w) ! s =
           (states w ! s)\<lparr>modified := True, copy := Ref (length (heap w))\<rparr>" by simp
  from e have len: "Suc (length (heap w)) \<le> length (heap w')"
    and tk: "take (Suc (length (heap w))) (heap w') = heap (markStep s w)"
    by (simp_all add: escalated_def)
  from len w' show "length (heap w) < length (heap (markChanged s w))" by simp
  have "heap w' ! length (heap w) = take (Suc (length (heap w))) (heap w') ! length (heap w)"
    by simp
  also have "\<dots> = heap (markStep s w) ! length (heap w)" by (simp only: tk)
  finally show "heap (markChanged s w) ! length (heap w) =
           (copyOf w (base (states w ! s)))
             \<lparr>ents := foldl (\<lambda>al (k, x). AList.update k x al)
                        (ents (copyOf w (base (states w ! s)))) (proxies (states w ! s))\<rparr>"
    by (simp add: w' markStep_def)
qed

lemma map_of_rev_distinct:
  assumes "distinct (map fst al)" and "(k, d) \<in> set al"
  shows "map_of (rev al) k = Some d"
proof -
  have "distinct (map fst (rev al))" using assms(1) by (simp add: rev_map [symmetric])
  moreover have "(k, d) \<in> set (rev al)" using assms(2) by simp
  ultimately show ?thesis by (rule map_of_is_SomeI)
qed

section \<open>Escalation overlays the cached child drafts\<close>

text \<open>
  C7. When a state escalates, its copy is a freshly allocated container on which every
  child draft cached so far is overlaid: for every key \<open>k\<close> cached with draft \<open>d\<close>,
  \<^verbatim>\<open>copy[k]\<close> is \<open>d\<close> after \<open>markChanged\<close>, and the keys that are not cached read as they do
  in the base. On a state that is already modified \<open>markChanged\<close> changes nothing. (The
  cache is a JavaScript object, so it has one entry per key.)
\<close>

theorem markChanged_overlays_children:
  "(s < length (states w) \<and> \<not> modified (states w ! s) \<and>
    distinct (map fst (proxies (states w ! s))) \<longrightarrow>
      modified (states (markChanged s w) ! s) \<and>
      copy (states (markChanged s w) ! s) = Ref (length (heap w)) \<and>
      length (heap w) < length (heap (markChanged s w)) \<and>
      (\<forall>(k, d) \<in> set (proxies (states w ! s)).
         getProp (markChanged s w) (copy (states (markChanged s w) ! s)) k = d) \<and>
      (\<forall>k. \<not> has (proxies (states w ! s)) k \<longrightarrow>
         getProp (markChanged s w) (copy (states (markChanged s w) ! s)) k =
         getProp w (base (states w ! s)) k)) \<and>
   (modified (states w ! s) \<longrightarrow> markChanged s w = w)"
proof (intro conjI impI)
  assume "modified (states w ! s)"
  then show "markChanged s w = w" by (simp add: markChanged_id)
next
  assume a: "s < length (states w) \<and> \<not> modified (states w ! s) \<and>
    distinct (map fst (proxies (states w ! s)))"
  let ?w' = "markChanged s w" and ?st = "states w ! s"
  note f = markChanged_fresh [of s w]
  from a f(1) show "modified (states ?w' ! s)" by simp
  from a f(1) show c: "copy (states ?w' ! s) = Ref (length (heap w))" by simp
  from a f(2) show l: "length (heap w) < length (heap ?w')" by simp
  have g: "getProp ?w' (Ref (length (heap w))) k =
        (case (map_of (ents (copyOf w (base ?st))) ++ map_of (rev (proxies ?st))) k of
           Some x \<Rightarrow> x | None \<Rightarrow> Undefined)" for k
    using a l f(3) by (simp add: getProp_def objAt_def lookup_def foldl_update_map_of)
  show "\<forall>(k, d) \<in> set (proxies ?st). getProp ?w' (copy (states ?w' ! s)) k = d"
  proof (clarify)
    fix k d assume "(k, d) \<in> set (proxies ?st)"
    with a have "map_of (rev (proxies ?st)) k = Some d" by (simp add: map_of_rev_distinct)
    then show "getProp ?w' (copy (states ?w' ! s)) k = d" by (simp add: c g)
  qed
  show "\<forall>k. \<not> has (proxies ?st) k \<longrightarrow>
         getProp ?w' (copy (states ?w' ! s)) k = getProp w (base ?st) k"
  proof (intro allI impI)
    fix k assume "\<not> has (proxies ?st) k"
    then have "map_of (rev (proxies ?st)) k = None"
      by (simp add: has_def map_of_eq_None_iff)
    then show "getProp ?w' (copy (states ?w' ! s)) k = getProp w (base ?st) k"
      by (simp add: c g map_add_def) (simp add: getProp_def copyOf_def lookup_def split: option.splits)
  qed
qed

theorem markChanged_overlays_children_witness:
  "getProp (markChanged 0 exampleCached) (copy (states (markChanged 0 exampleCached) ! 0)) (Prop ''a'')
     = Prox 1 \<and>
   getProp (markChanged 0 exampleCached) (copy (states (markChanged 0 exampleCached) ! 0)) (Prop ''c'')
     = Num 1 \<and>
   copy (states (markChanged 0 exampleCached) ! 0) = Ref 2 \<and>
   markChanged 0 (markChanged 0 exampleCached) = markChanged 0 exampleCached"
proof -
  let ?w' = "markChanged 0 exampleCached"
  have h: "0 < length (states exampleCached) \<and> \<not> modified (states exampleCached ! 0) \<and>
           distinct (map fst (proxies (states exampleCached ! 0)))"
    by (simp add: exampleCached_def)
  note t = markChanged_overlays_children [of 0 exampleCached, THEN conjunct1, THEN mp, OF h]
  from t have m: "modified (states ?w' ! 0)" and c: "copy (states ?w' ! 0) = Ref 2"
    by (simp_all add: exampleCached_def)
  from t have "\<forall>(k, d) \<in> set (proxies (states exampleCached ! 0)).
                 getProp ?w' (copy (states ?w' ! 0)) k = d"
    by (elim conjE)
  then have a: "getProp ?w' (copy (states ?w' ! 0)) (Prop ''a'') = Prox 1"
    by (simp add: exampleCached_def)
  from t have "\<forall>k. \<not> has (proxies (states exampleCached ! 0)) k \<longrightarrow>
         getProp ?w' (copy (states ?w' ! 0)) k = getProp exampleCached (base (states exampleCached ! 0)) k"
    by (elim conjE)
  then have "getProp ?w' (copy (states ?w' ! 0)) (Prop ''c'') =
             getProp exampleCached (base (states exampleCached ! 0)) (Prop ''c'')"
    by (simp add: exampleCached_def has_def)
  also have "\<dots> = Num 1"
    by (simp add: exampleCached_def getProp_def objAt_def lookup_def)
  finally have b: "getProp ?w' (copy (states ?w' ! 0)) (Prop ''c'') = Num 1" .
  from m markChanged_overlays_children [of 0 ?w'] have "markChanged 0 ?w' = ?w'"
    by blast
  with a b c show ?thesis by simp
qed


section \<open>Unsupported operations\<close>

text \<open>
  C9. Changing the prototype of a draft and defining a property on a draft always raise
  the module's error, for every live draft and every argument, and the failed attempt
  leaves the whole world, hence the draft state, as it was: the producer's handler, if it
  has one, continues in the unchanged world.
\<close>

theorem forbidden_operations_raise:
  "live w p \<longrightarrow>
     run (DefineProperty p k v) w =
       (Inl (Error ''Immer does currently not support defining properties on draft objects''), w) \<and>
     run (SetPrototypeOf p proto) w = (Inl (Error ''Don't even try this...''), w) \<and>
     run (Try (DefineProperty p k v) h) w =
       run (h (Error ''Immer does currently not support defining properties on draft objects'')) w \<and>
     run (Try (SetPrototypeOf p proto) h) w = run (h (Error ''Don't even try this...'')) w"
  by (simp add: defineProperty_def setPrototypeOf_def)

theorem forbidden_operations_raise_witness:
  "live exampleCached 1 \<and>
   run (DefineProperty 1 (Prop ''x'') (Num 1)) exampleCached =
     (Inl (Error ''Immer does currently not support defining properties on draft objects''),
      exampleCached) \<and>
   run (SetPrototypeOf 1 Null) exampleCached = (Inl (Error ''Don't even try this...''), exampleCached)"
proof -
  have l: "live exampleCached 1" by (simp add: live_def exampleCached_def)
  from l forbidden_operations_raise [where w = exampleCached and p = 1 and k = "Prop ''x''"
      and v = "Num 1" and proto = Null]
  show ?thesis by blast
qed

section \<open>Writes that change nothing\<close>

text \<open>
  C3. On a state that is not modified, writing to a key of the base the value that the
  base already holds there (identity, with \<open>NaN\<close> equal to itself), or writing the child
  draft that is cached for the key, returns success and leaves the world as it was: the
  state stays unmodified and nothing is allocated.
\<close>

theorem set_same_value_is_noop:
  "\<not> modified (states w ! s) \<and>
   ((inOp w (base (states w ! s)) k \<and> is_equal (getProp w (base (states w ! s)) k) v) \<or>
    (map_of (proxies (states w ! s)) k = Some v \<and> isProxy v))
   \<longrightarrow> set_trap s k v w = (True, w)"
  by (auto simp: set_trap_def is_equal_def has_def lookup_def strict_eq_def isProxy_def
           split: val.splits)

theorem set_same_value_is_noop_witness:
  "set_trap 0 (Prop ''c'') (Num 1) exampleCached = (True, exampleCached) \<and>
   set_trap 0 (Prop ''a'') (Prox 1) exampleCached = (True, exampleCached) \<and>
   \<not> modified (states (snd (set_trap 0 (Prop ''c'') (Num 1) exampleCached)) ! 0) \<and>
   heap (snd (set_trap 0 (Prop ''a'') (Prox 1) exampleCached)) = heap exampleCached \<and>
   set_trap 0 (Prop ''n'') NaN
     \<lparr>heap = [\<lparr>kind = PlainObject, ents = [(Prop ''n'', NaN)]\<rparr>],
      states = [createState None (Ref 0)], revoked = {}, registry = [0]\<rparr> =
     (True, \<lparr>heap = [\<lparr>kind = PlainObject, ents = [(Prop ''n'', NaN)]\<rparr>],
             states = [createState None (Ref 0)], revoked = {}, registry = [0]\<rparr>)"
proof -
  have 1: "set_trap 0 (Prop ''c'') (Num 1) exampleCached = (True, exampleCached)"
    using set_same_value_is_noop [of exampleCached 0 "Prop ''c''" "Num 1"]
    by (simp add: exampleCached_def inOp_def getProp_def objAt_def lookup_def is_equal_def)
  have 2: "set_trap 0 (Prop ''a'') (Prox 1) exampleCached = (True, exampleCached)"
    using set_same_value_is_noop [of exampleCached 0 "Prop ''a''" "Prox 1"]
    by (simp add: exampleCached_def isProxy_def)
  have 3: "\<not> modified (states exampleCached ! 0)" by (simp add: exampleCached_def)
  have 4: "set_trap 0 (Prop ''n'') NaN
     \<lparr>heap = [\<lparr>kind = PlainObject, ents = [(Prop ''n'', NaN)]\<rparr>],
      states = [createState None (Ref 0)], revoked = {}, registry = [0]\<rparr> =
     (True, \<lparr>heap = [\<lparr>kind = PlainObject, ents = [(Prop ''n'', NaN)]\<rparr>],
             states = [createState None (Ref 0)], revoked = {}, registry = [0]\<rparr>)"
    using set_same_value_is_noop [of
        "\<lparr>heap = [\<lparr>kind = PlainObject, ents = [(Prop ''n'', NaN)]\<rparr>],
          states = [createState None (Ref 0)], revoked = {}, registry = [0]\<rparr>" 0 "Prop ''n''" NaN]
    by (simp add: createState_def inOp_def getProp_def objAt_def lookup_def is_equal_def)
  from 1 2 3 4 show ?thesis by simp
qed

section \<open>Reading the same key twice\<close>

text \<open>
  For every key but \<^verbatim>\<open>__proto__\<close>, on a state that is not modified and whose cache still
  has the prototype it was created with: when the base holds a plain container at the key
  and nothing is cached for it, the read creates the draft state of the child, with that
  container as its base, stores the new draft in the cache under the key, and returns it;
  the second read returns the same draft from the cache and changes nothing.
\<close>

lemma get_caches_child_draft:
  assumes "s < length (states w)" and "\<not> modified (states w ! s)"
    and "k \<noteq> PROXY_STATE" and "k \<noteq> Prop ''__proto__''"
    and "proxiesProto (states w ! s) = None"
    and "\<not> has (proxies (states w ! s)) k"
    and "isProxyable w (getProp w (base (states w ! s)) k)"
  shows "fst (get s k w) = Inr (Prox (length (states w)))"
    and "length (states (snd (get s k w))) = Suc (length (states w))"
    and "states (snd (get s k w)) ! length (states w) =
           createState (Some s) (getProp w (base (states w ! s)) k)"
    and "has (proxies (states (snd (get s k w)) ! s)) k"
    and "lookup (proxies (states (snd (get s k w)) ! s)) k = Prox (length (states w))"
    and "\<not> modified (states (snd (get s k w)) ! s)"
    and "get s k (snd (get s k w)) = (Inr (Prox (length (states w))), snd (get s k w))"
proof -
  let ?v = "getProp w (base (states w ! s)) k" and ?n = "length (states w)"
  from assms(7) have np: "\<not> isProxy ?v"
    by (auto simp: isProxyable_def objAt_def isProxy_def split: val.splits)
  have g: "get s k w =
     (Inr (Prox ?n),
      w\<lparr>states := (states w @ [createState (Some s) ?v])
             [s := (states w ! s)\<lparr>proxies := AList.update k (Prox ?n) (proxies (states w ! s))\<rparr>],
        registry := registry w @ [?n]\<rparr>)"
    using assms np by (simp add: get_def cacheStore_def createProxy_def Let_def nth_append)
  show "fst (get s k w) = Inr (Prox ?n)" by (simp add: g)
  show "length (states (snd (get s k w))) = Suc ?n" by (simp add: g)
  show "states (snd (get s k w)) ! ?n = createState (Some s) ?v"
    using assms(1) by (simp add: g)
  show h: "has (proxies (states (snd (get s k w)) ! s)) k"
    using assms(1) by (simp add: g has_def update_conv')
  show l: "lookup (proxies (states (snd (get s k w)) ! s)) k = Prox ?n"
    using assms(1) by (simp add: g lookup_def update_conv')
  show m: "\<not> modified (states (snd (get s k w)) ! s)"
    using assms(1,2) by (simp add: g)
  from assms(3) h l m show "get s k (snd (get s k w)) = (Inr (Prox ?n), snd (get s k w))"
    by (simp add: get_def Let_def)
qed

text \<open>
  C8. The claim is that two consecutive reads of a key whose base value is a plain
  container return the same draft, the second from the cache that the first has filled.
  The source fills the cache by the assignment \<^verbatim>\<open>state.proxies[prop] = draft\<close> (line 94)
  on an object created as \<^verbatim>\<open>{}\<close>; for the key \<^verbatim>\<open>__proto__\<close> that assignment replaces the
  prototype of the cache and stores nothing. On the base
  \<^verbatim>\<open>JSON.parse('{"__proto__": {"b": 1}}')\<close> the root state is not modified and the base
  value at the key is a plain container; the first read returns the draft 1, after it the
  state is still not modified and the cache has no entry for the key, and the second read
  returns another draft, 2. On the base \<^verbatim>\<open>{a: {b: 1}, c: 1}\<close> both reads of the key
  \<^verbatim>\<open>a\<close> return the draft 1.
\<close>

theorem proto_key_read_twice_gives_two_drafts:
  "\<not> modified (states protoStart ! 0) \<and>
   isProxyable protoStart (getProp protoStart (base (states protoStart ! 0)) (Prop ''__proto__'')) \<and>
   fst (get 0 (Prop ''__proto__'') protoStart) = Inr (Prox 1) \<and>
   \<not> modified (states protoReadOnce ! 0) \<and>
   \<not> has (proxies (states protoReadOnce ! 0)) (Prop ''__proto__'') \<and>
   proxiesProto (states protoReadOnce ! 0) = Some (Prox 1) \<and>
   fst (get 0 (Prop ''__proto__'') protoReadOnce) = Inr (Prox 2) \<and>
   fst (get 0 (Prop ''a'') (entered (Ref 0) (initial exampleHeap))) = Inr (Prox 1) \<and>
   fst (get 0 (Prop ''a'') (snd (get 0 (Prop ''a'') (entered (Ref 0) (initial exampleHeap))))) =
     Inr (Prox 1)"
proof -
  have 1: "\<not> modified (states protoStart ! 0)" by code_simp
  have 2: "isProxyable protoStart
             (getProp protoStart (base (states protoStart ! 0)) (Prop ''__proto__''))"
    by code_simp
  have 3: "fst (get 0 (Prop ''__proto__'') protoStart) = Inr (Prox 1)" by code_simp
  have 4: "\<not> modified (states protoReadOnce ! 0)" by code_simp
  have 5: "\<not> has (proxies (states protoReadOnce ! 0)) (Prop ''__proto__'')" by code_simp
  have 6: "proxiesProto (states protoReadOnce ! 0) = Some (Prox 1)" by code_simp
  have 7: "fst (get 0 (Prop ''__proto__'') protoReadOnce) = Inr (Prox 2)" by code_simp
  have 8: "fst (get 0 (Prop ''a'') (entered (Ref 0) (initial exampleHeap))) = Inr (Prox 1)"
    by code_simp
  have 9: "fst (get 0 (Prop ''a'') (snd (get 0 (Prop ''a'') (entered (Ref 0) (initial exampleHeap))))) =
     Inr (Prox 1)"
    by code_simp
  from 1 2 3 4 5 6 7 8 9 show ?thesis by (intro conjI)
qed


section \<open>Invariants of a producer's run\<close>

text \<open>
  What a read does to the world is nothing, or the creation of a child draft followed by a
  store: into the copy of the state when it is modified, into its cache otherwise.
\<close>

lemma get_world_cases:
  "snd (get s k w) = w \<or>
   (\<exists>v. isProxyable w v \<and> v = getProp w (base (states w ! s)) k \<and>
        (snd (get s k w) =
           setProp (copy (states w ! s)) k (Prox (length (states w)))
             (snd (createProxy (Some s) v w)) \<or>
         snd (get s k w) =
           snd (cacheStore s k (Prox (length (states w))) (snd (createProxy (Some s) v w)))))"
  by (auto simp: get_def Let_def createProxy_def strict_eq_def)

lemma cacheStore_world_cases:
  "snd (cacheStore s k d w) = w \<or>
   (\<exists>q. live w q \<and> snd (cacheStore s k d w) = snd (set_trap q k d w)) \<or>
   (\<exists>al. snd (cacheStore s k d w) =
           w\<lparr>states := (states w)[s := (states w ! s)\<lparr>proxies := al\<rparr>]\<rparr>) \<or>
   (\<exists>pr. snd (cacheStore s k d w) =
           w\<lparr>states := (states w)[s := (states w ! s)\<lparr>proxiesProto := pr\<rparr>]\<rparr>)"
  by (auto simp: cacheStore_def Let_def split: option.splits val.splits)

lemma cacheStore_error: "fst (cacheStore s k d w) = Inl e \<Longrightarrow> e = TypeError"
  by (auto simp: cacheStore_def Let_def split: option.splits val.splits if_splits)

text \<open>The only error that a read raises by itself is the runtime's.\<close>

lemma get_error:
  assumes "fst (get s k w) = Inl e"
  shows "e = TypeError"
proof -
  from assms obtain d w1 where "fst (cacheStore s k d w1) = Inl e"
    by (auto simp: get_def Let_def split: if_splits prod.splits)
  then show ?thesis by (rule cacheStore_error)
qed

text \<open>
  A property of the world that every state-changing step of a producer preserves holds
  after the whole run, however the run ends.
\<close>

lemma run_invariant:
  assumes get: "\<And>p k w. I w \<Longrightarrow> live w p \<Longrightarrow> I (snd (get p k w))"
    and set: "\<And>p k v w. I w \<Longrightarrow> live w p \<Longrightarrow> I (snd (set_trap p k v w))"
    and del: "\<And>p k w. I w \<Longrightarrow> live w p \<Longrightarrow> I (snd (deleteProperty p k w))"
    and new: "\<And>kd es w. I w \<Longrightarrow> I (w\<lparr>heap := heap w @ [\<lparr>kind = kd, ents = es\<rparr>]\<rparr>)"
  shows "I w \<Longrightarrow> I (snd (run c w))"
proof (induction c arbitrary: w)
  case (Get p k f)
  show ?case
  proof (cases "live w p")
    case True
    obtain r w' where g: "get p k w = (r, w')" by (cases "get p k w")
    with get [OF Get.prems True, of k] have i: "I w'" by simp
    show ?thesis
    proof (cases r)
      case (Inl e)
      with True g i show ?thesis by simp
    next
      case (Inr v)
      from i have "I (snd (run (f v) w'))" by (rule Get.IH [OF rangeI])
      with True g Inr show ?thesis by simp
    qed
  next
    case False
    with Get.prems show ?thesis by simp
  qed
next
  case (Set p k v c)
  then show ?case using set by (cases "live w p") auto
next
  case (Delete p k c)
  then show ?case using del by (cases "live w p") auto
next
  case (New kd es f)
  from new [OF New.prems] New.IH [OF rangeI] show ?case by simp
next
  case (Try c h)
  obtain r w' where r: "run c w = (r, w')" by (cases "run c w")
  with Try.IH(1) [OF Try.prems] have i: "I w'" by simp
  show ?case
  proof (cases r)
    case (Inl e)
    with r i Try.IH(2) [OF rangeI, of w' e] show ?thesis by simp
  next
    case (Inr v)
    with r i show ?thesis by simp
  qed
qed (auto simp: defineProperty_def setPrototypeOf_def)

lemma markChanged_revoked [simp]: "revoked (markChanged s w) = revoked w"
  and markChanged_registry [simp]: "registry (markChanged s w) = registry w"
  and markChanged_length_states [simp]: "length (states (markChanged s w)) = length (states w)"
  using escalated_markChanged [of w s] by (simp_all add: escalated_def)

lemma setProp_fields [simp]:
  "revoked (setProp v k x w) = revoked w" "registry (setProp v k x w) = registry w"
  by (simp_all add: setProp_def split: val.splits)

lemma deleteProp_fields [simp]:
  "revoked (deleteProp v k w) = revoked w" "registry (deleteProp v k w) = registry w"
  "states (deleteProp v k w) = states w"
  "length (heap (deleteProp v k w)) = length (heap w)"
  by (simp_all add: deleteProp_def split: val.splits)

lemma set_trap_fields [simp]:
  "revoked (snd (set_trap s k v w)) = revoked w"
  "registry (snd (set_trap s k v w)) = registry w"
  "length (states (snd (set_trap s k v w))) = length (states w)"
  by (simp_all add: set_trap_def Let_def)

lemma createProxy_fields [simp]:
  "revoked (snd (createProxy p v w)) = revoked w"
  "registry (snd (createProxy p v w)) = registry w @ [length (states w)]"
  "states (snd (createProxy p v w)) = states w @ [createState p v]"
  "heap (snd (createProxy p v w)) = heap w"
  by (simp_all add: createProxy_def Let_def)

lemma cacheStore_fields [simp]:
  "revoked (snd (cacheStore s k d w)) = revoked w"
  "registry (snd (cacheStore s k d w)) = registry w"
  "length (states (snd (cacheStore s k d w))) = length (states w)"
proof -
  have "revoked (snd (cacheStore s k d w)) = revoked w \<and>
        registry (snd (cacheStore s k d w)) = registry w \<and>
        length (states (snd (cacheStore s k d w))) = length (states w)"
    using cacheStore_world_cases [of s k d w]
    by (elim disjE exE conjE) simp_all
  then show "revoked (snd (cacheStore s k d w)) = revoked w"
    "registry (snd (cacheStore s k d w)) = registry w"
    "length (states (snd (cacheStore s k d w))) = length (states w)"
    by simp_all
qed

lemma get_revoked [simp]: "revoked (snd (get s k w)) = revoked w"
  using get_world_cases [of s k w] by (elim disjE exE conjE) simp_all

lemma run_revoked: "revoked (snd (run c w)) = revoked w"
proof -
  have "revoked w = revoked w \<Longrightarrow> revoked (snd (run c w)) = revoked w"
    by (rule run_invariant [where I = "\<lambda>w'. revoked w' = revoked w"])
       (simp_all add: deleteProperty_def Let_def)
  then show ?thesis by simp
qed


section \<open>The outcome of \<open>produceProxy\<close>\<close>

lemma entered_simps [simp]:
  "states (entered b w) = states w @ [createState None b]"
  "heap (entered b w) = heap w"
  "revoked (entered b w) = revoked w"
  "registry (entered b w) = [length (states w)]"
  by (simp_all add: entered_def createProxy_def Let_def)

lemma produceProxy_cases:
  "produceProxy fuel b producer w =
     (case run (producer (rootDraft w)) (entered b w) of
        (Inl e, w2) \<Rightarrow> (Some (Inl e), w2\<lparr>registry := registry w\<rparr>)
      | (Inr v, w2) \<Rightarrow>
          if v \<noteq> Undefined \<and> v \<noteq> rootDraft w then
            (if modified (states w2 ! length (states w))
             then (Some (Inl (Error RETURNED_AND_MODIFIED_ERROR)), w2\<lparr>registry := registry w\<rparr>)
             else (fst (revokeAndReturn (finalize fuel v w2)),
                   (snd (revokeAndReturn (finalize fuel v w2)))\<lparr>registry := registry w\<rparr>))
          else (fst (revokeAndReturn (finalize fuel (rootDraft w) w2)),
                (snd (revokeAndReturn (finalize fuel (rootDraft w) w2)))\<lparr>registry := registry w\<rparr>))"
  by (simp add: produceProxy_def rootDraft_def entered_def createProxy_def Let_def strict_eq_def
        proxyState_def get_def stateModified_def split: prod.splits sum.splits)

lemma fst_revokeAndReturn: "fst (revokeAndReturn r) = map_option Inr (fst r)"
  by (cases r) (simp add: revokeAndReturn_def split: option.splits)

lemma each_revoke_fields [simp]:
  "heap (each xs revoke w) = heap w" "states (each xs revoke w) = states w"
proof -
  have "heap (foldl (\<lambda>w' x. revoke x w') w xs) = heap w \<and>
        states (foldl (\<lambda>w' x. revoke x w') w xs) = states w"
    by (induction xs arbitrary: w) (simp_all add: revoke_def)
  then show "heap (each xs revoke w) = heap w" "states (each xs revoke w) = states w"
    by (simp_all add: each_def)
qed

lemma snd_revokeAndReturn_fields [simp]:
  "heap (snd (revokeAndReturn r)) = heap (snd r)"
  "states (snd (revokeAndReturn r)) = states (snd r)"
  by (cases r; simp add: revokeAndReturn_def split: option.splits)+

lemma initial_simps [simp]:
  "heap (initial h) = h" "states (initial h) = []" "revoked (initial h) = {}"
  "registry (initial h) = []" "rootDraft (initial h) = Prox 0"
  by (simp_all add: initial_def rootDraft_def)

lemma run_never_returned_and_modified:
  "fst (run c w) \<noteq> Inl (Error RETURNED_AND_MODIFIED_ERROR)"
proof (induction c arbitrary: w)
  case (Get p k f)
  show ?case
  proof (cases "live w p")
    case True
    obtain r w' where g: "get p k w = (r, w')" by (cases "get p k w")
    show ?thesis
    proof (cases r)
      case (Inl e)
      with g get_error [of p k w e] have "e = TypeError" by simp
      with True g Inl show ?thesis by simp
    next
      case (Inr v)
      from Get.IH [OF rangeI, of v w'] True g Inr show ?thesis by simp
    qed
  next
    case False
    then show ?thesis by simp
  qed
next
  case (Try c h)
  obtain r w' where r: "run c w = (r, w')" by (cases "run c w")
  show ?case
  proof (cases r)
    case (Inl e)
    with r Try.IH(2) [OF rangeI, of e w'] show ?thesis by simp
  next
    case (Inr v)
    with r show ?thesis by simp
  qed
qed (auto simp: defineProperty_def setPrototypeOf_def RETURNED_AND_MODIFIED_ERROR_def)

text \<open>
  C2. \<open>produceProxy\<close> raises the returned-and-modified error exactly when the producer
  returns a value that is neither \<^verbatim>\<open>undefined\<close> nor the root draft while the root state is
  modified. When such a value is returned and the root state is not modified, the outcome
  is the finalization of the returned value. On the error path the outcome is the error
  alone: no result comes with it.
\<close>

theorem returned_and_modified_iff:
  "(fst (produceProxy fuel b producer w) = Some (Inl (Error RETURNED_AND_MODIFIED_ERROR))
      \<longleftrightarrow>
    (\<exists>v w2. run (producer (rootDraft w)) (entered b w) = (Inr v, w2) \<and>
            v \<noteq> Undefined \<and> v \<noteq> rootDraft w \<and> modified (states w2 ! length (states w)))) \<and>
   (\<forall>v w2. run (producer (rootDraft w)) (entered b w) = (Inr v, w2) \<and>
            v \<noteq> Undefined \<and> v \<noteq> rootDraft w \<and> \<not> modified (states w2 ! length (states w))
      \<longrightarrow> fst (produceProxy fuel b producer w) = map_option Inr (fst (finalize fuel v w2)))"
proof -
  obtain r w2 where r: "run (producer (rootDraft w)) (entered b w) = (r, w2)"
    by (cases "run (producer (rootDraft w)) (entered b w)")
  show ?thesis
  proof (cases r)
    case (Inl e)
    from run_never_returned_and_modified [of "producer (rootDraft w)" "entered b w"] r Inl
    have "e \<noteq> Error RETURNED_AND_MODIFIED_ERROR" by simp
    with r Inl show ?thesis by (simp add: produceProxy_cases)
  next
    case (Inr v)
    with r show ?thesis
      by (auto simp: produceProxy_cases fst_revokeAndReturn)
  qed
qed

theorem returned_and_modified_iff_witness:
  "fst (produceProxy 3 (Ref 0) writeAndReturn (initial exampleHeap)) =
     Some (Inl (Error RETURNED_AND_MODIFIED_ERROR)) \<and>
   fst (run (writeAndReturn (rootDraft (initial exampleHeap))) (entered (Ref 0) (initial exampleHeap)))
     = Inr (Num 7)"
proof -
  let ?r = "run (writeAndReturn (rootDraft (initial exampleHeap))) (entered (Ref 0) (initial exampleHeap))"
  have 1: "fst ?r = Inr (Num 7)" by code_simp
  have 2: "modified (states (snd ?r) ! length (states (initial exampleHeap)))" by code_simp
  have "?r = (Inr (Num 7), snd ?r)" using 1 by (cases ?r) simp
  with 2 have "\<exists>v w2. ?r = (Inr v, w2) \<and> v \<noteq> Undefined \<and> v \<noteq> rootDraft (initial exampleHeap) \<and>
       modified (states w2 ! length (states (initial exampleHeap)))"
    by (intro exI [of _ "Num 7"] exI [of _ "snd ?r"]) (simp add: rootDraft_def)
  with returned_and_modified_iff [of 3 "Ref 0" writeAndReturn "initial exampleHeap"] 1
  show ?thesis by blast
qed


section \<open>Revocation on the error exits\<close>

lemma produceProxy_error_revokes_nothing:
  assumes "fst (produceProxy fuel b producer w) = Some (Inl e)"
  shows "revoked (snd (produceProxy fuel b producer w)) = revoked w"
proof -
  obtain r w2 where r: "run (producer (rootDraft w)) (entered b w) = (r, w2)"
    by (cases "run (producer (rootDraft w)) (entered b w)")
  have "revoked w2 = revoked (entered b w)"
    using run_revoked [of "producer (rootDraft w)" "entered b w"] r by simp
  then have w2: "revoked w2 = revoked w"
    by simp
  show ?thesis
  proof (cases r)
    case (Inl e')
    with r w2 show ?thesis by (simp add: produceProxy_cases)
  next
    case (Inr v)
    with r w2 assms show ?thesis
      by (auto simp: produceProxy_cases fst_revokeAndReturn split: if_splits)
  qed
qed

lemma finalize_fields:
  "states (snd (finalize n v w)) = states w \<and> revoked (snd (finalize n v w)) = revoked w \<and>
   registry (snd (finalize n v w)) = registry w"
  and finalizeEach_fields:
  "states (snd (finalizeEach n es w)) = states w \<and> revoked (snd (finalizeEach n es w)) = revoked w \<and>
   registry (snd (finalizeEach n es w)) = registry w"
proof (induction n v w and n es w rule: finalize_finalizeEach.induct)
  case (1 n v w)
  show ?case
  proof (cases v)
    case (Ref a)
    show ?thesis
    proof (cases "isProxyable w v")
      case True
      obtain r w' where fe: "finalizeEach n (ents (heap w ! a)) w = (r, w')"
        by (cases "finalizeEach n (ents (heap w ! a)) w")
      with "1.IH"(1) [OF Ref True]
      have "states w' = states w \<and> revoked w' = revoked w \<and> registry w' = registry w" by simp
      with Ref True fe show ?thesis by (cases r) (simp_all add: finalize.simps(1))
    next
      case False
      with Ref show ?thesis by (simp add: finalize.simps(1))
    qed
  next
    case (Prox p)
    show ?thesis
    proof (cases "p < length (states w) \<and> modified (states w ! p)")
      case False
      with Prox show ?thesis by (auto simp: finalize.simps(1))
    next
      case True
      show ?thesis
      proof (cases "objAt w (copy (states w ! p))")
        case None
        with Prox True show ?thesis by (simp add: finalize.simps(1))
      next
        case (Some ob)
        from True have t1: "p < length (states w)" and t2: "modified (states w ! p)" by simp_all
        obtain r w' where fe: "finalizeEach n (ents ob) w = (r, w')"
          by (cases "finalizeEach n (ents ob) w")
        with "1.IH"(2) [OF Prox t1 t2 Some]
        have "states w' = states w \<and> revoked w' = revoked w \<and> registry w' = registry w" by simp
        with Prox True Some fe show ?thesis by (cases r) (simp_all add: finalize.simps(1))
      qed
    qed
  qed (simp_all add: finalize.simps(1))
next
  case (2 n w)
  show ?case by simp
next
  case (3 e es w)
  show ?case by simp
next
  case (4 m e es w)
  obtain r w' where f: "finalize m (snd e) w = (r, w')" by (cases "finalize m (snd e) w")
  with "4.IH"(1) have w': "states w' = states w \<and> revoked w' = revoked w \<and> registry w' = registry w"
    by simp
  show ?case
  proof (cases r)
    case None
    with f w' show ?thesis by simp
  next
    case (Some x)
    obtain r2 w'' where f2: "finalizeEach (Suc m) es w' = (r2, w'')"
      by (cases "finalizeEach (Suc m) es w'")
    with "4.IH"(2) [OF f [symmetric] Some]
    have "states w'' = states w' \<and> revoked w'' = revoked w' \<and> registry w'' = registry w'" by simp
    with f Some f2 w' show ?thesis by (cases r2) simp_all
  qed
qed

lemma registered_cong:
  "length (states w') = length (states w) \<Longrightarrow> registry w' = registry w \<Longrightarrow>
   registered n w \<Longrightarrow> registered n w'"
  by (simp add: registered_def)

lemma createProxy_registered:
  assumes "registered n w"
  shows "registered n (snd (createProxy p v w))"
proof -
  have "{n ..< Suc (length (states w))} \<subseteq> insert (length (states w)) {n ..< length (states w)}"
    by auto
  with assms show ?thesis by (auto simp: registered_def)
qed

lemma get_registered:
  assumes "registered n w"
  shows "registered n (snd (get s k w))"
  using get_world_cases [of s k w]
proof (elim disjE exE conjE)
  assume "snd (get s k w) = w"
  with assms show ?thesis by simp
next
  fix v
  assume e: "snd (get s k w) =
            setProp (copy (states w ! s)) k (Prox (length (states w)))
              (snd (createProxy (Some s) v w))"
  show ?thesis
    by (rule registered_cong [OF _ _ createProxy_registered [OF assms, of "Some s" v]])
       (simp_all add: e)
next
  fix v
  assume e: "snd (get s k w) =
            snd (cacheStore s k (Prox (length (states w))) (snd (createProxy (Some s) v w)))"
  show ?thesis
    by (rule registered_cong [OF _ _ createProxy_registered [OF assms, of "Some s" v]])
       (simp_all add: e)
qed

lemma run_registered:
  assumes "registered n w"
  shows "registered n (snd (run c w))"
  using assms
proof (rule run_invariant [where I = "registered n", rotated -1])
  fix p k w assume "registered n w" "live w p"
  then show "registered n (snd (get p k w))" by (simp add: get_registered)
next
  fix p k v w assume "registered n w" "live w p"
  then show "registered n (snd (set_trap p k v w))"
    by (auto simp: registered_def set_trap_def Let_def)
next
  fix p k w assume "registered n w" "live w p"
  then show "registered n (snd (deleteProperty p k w))"
    by (auto simp: registered_def deleteProperty_def Let_def)
next
  fix kd es w assume "registered n w"
  then show "registered n (w\<lparr>heap := heap w @ [\<lparr>kind = kd, ents = es\<rparr>]\<rparr>)"
    by (simp add: registered_def)
qed

lemma revoked_each_revoke: "revoked (each xs revoke w) = revoked w \<union> set xs"
proof -
  have "revoked (foldl (\<lambda>w' x. revoke x w') w xs) = revoked w \<union> set xs"
    by (induction xs arbitrary: w) (auto simp: revoke_def)
  then show ?thesis by (simp add: each_def)
qed

text \<open>
  On the normal exit every draft created during the call is revoked: the exit that returns
  a result does what the error exits leave out.
\<close>

lemma normal_exit_revokes_all:
  assumes "fst (produceProxy fuel b producer w) = Some (Inr result)"
    and "length (states w) \<le> p"
    and "p < length (states (snd (produceProxy fuel b producer w)))"
  shows "p \<in> revoked (snd (produceProxy fuel b producer w))"
proof -
  obtain r w2 where run: "run (producer (rootDraft w)) (entered b w) = (r, w2)"
    by (cases "run (producer (rootDraft w)) (entered b w)")
  have "registered (length (states w)) (entered b w)" by (simp add: registered_def)
  then have "registered (length (states w)) (snd (run (producer (rootDraft w)) (entered b w)))"
    by (rule run_registered)
  with run have reg: "registered (length (states w)) w2" by simp
  have fin: "p \<in> revoked (snd (revokeAndReturn (finalize fuel v w2)))"
    if "fst (revokeAndReturn (finalize fuel v w2)) = Some (Inr result)"
      and "p < length (states (snd (revokeAndReturn (finalize fuel v w2))))" for v
  proof -
    obtain x w3 where f: "finalize fuel v w2 = (x, w3)" by (cases "finalize fuel v w2")
    with finalize_fields [of fuel v w2]
    have w3: "states w3 = states w2" "registry w3 = registry w2" by simp_all
    from that(1) f obtain y where x: "x = Some y" by (cases x) (simp_all add: revokeAndReturn_def)
    from that(2) f x w3 have "p < length (states w2)" by (simp add: revokeAndReturn_def)
    with assms(2) reg have "p \<in> set (registry w2)" by (auto simp: registered_def)
    with f x w3 show ?thesis by (simp add: revokeAndReturn_def revoked_each_revoke)
  qed
  show ?thesis
  proof (cases r)
    case (Inl e)
    with run assms(1) show ?thesis by (simp add: produceProxy_cases)
  next
    case (Inr v)
    with run assms fin [of v] fin [of "rootDraft w"] show ?thesis
      by (auto simp: produceProxy_cases split: if_splits)
  qed
qed

text \<open>
  C1. The claim is that every draft created during a call is revoked on every exit path,
  also when the producer raises. The source revokes inside the \<^verbatim>\<open>try\<close> block, after
  \<^verbatim>\<open>finalize\<close>; its \<^verbatim>\<open>finally\<close> block only restores the registry. On the base
  \<^verbatim>\<open>{a: {b: 1}, c: 1}\<close>, a producer that reads \<^verbatim>\<open>draft.a\<close> and throws leaves the call with
  its error, and neither the root draft nor the child draft is revoked: a later read
  through the root draft succeeds. The same holds when the call ends with the
  returned-and-modified error.
\<close>

theorem error_exit_leaves_drafts_live:
  "fst (produceProxy fuel (Ref 0) readThenThrow (initial exampleHeap)) =
     Some (Inl (Thrown (Str ''boom''))) \<and>
   revoked (snd (produceProxy fuel (Ref 0) readThenThrow (initial exampleHeap))) = {} \<and>
   live (snd (produceProxy fuel (Ref 0) readThenThrow (initial exampleHeap))) 0 \<and>
   live (snd (produceProxy fuel (Ref 0) readThenThrow (initial exampleHeap))) 1 \<and>
   fst (run (Get 0 (Prop ''c'') Return)
          (snd (produceProxy fuel (Ref 0) readThenThrow (initial exampleHeap)))) = Inr (Num 1) \<and>
   fst (produceProxy fuel (Ref 0) writeAndReturn (initial exampleHeap)) =
     Some (Inl (Error RETURNED_AND_MODIFIED_ERROR)) \<and>
   live (snd (produceProxy fuel (Ref 0) writeAndReturn (initial exampleHeap))) 0"
proof -
  have 1: "produceProxy fuel (Ref 0) readThenThrow (initial exampleHeap) =
    (Some (Inl (Thrown (Str ''boom''))),
     \<lparr>heap = exampleHeap,
      states = [\<lparr>modified = False, finalized = False, parent = None, base = Ref 0,
                 copy = Undefined, proxies = [(Prop ''a'', Prox 1)], proxiesProto = None\<rparr>,
                \<lparr>modified = False, finalized = False, parent = Some 0, base = Ref 1,
                 copy = Undefined, proxies = [], proxiesProto = None\<rparr>],
      revoked = {}, registry = []\<rparr>)"
    by (simp add: produceProxy_def initial_def exampleHeap_def readThenThrow_def createProxy_def
          live_def get_def cacheStore_def createState_def Let_def has_def getProp_def objAt_def
          lookup_def isProxy_def isProxyable_def)
  have 2: "produceProxy fuel (Ref 0) writeAndReturn (initial exampleHeap) =
    (Some (Inl (Error RETURNED_AND_MODIFIED_ERROR)),
     \<lparr>heap = exampleHeap @ [\<lparr>kind = PlainObject, ents = [(Prop ''a'', Ref 1), (Prop ''c'', Num 2)]\<rparr>],
      states = [\<lparr>modified = True, finalized = False, parent = None, base = Ref 0,
                 copy = Ref 2, proxies = [], proxiesProto = None\<rparr>],
      revoked = {}, registry = []\<rparr>)"
    by (simp add: produceProxy_def initial_def exampleHeap_def writeAndReturn_def createProxy_def
          live_def set_trap_def createState_def Let_def has_def getProp_def objAt_def lookup_def
          inOp_def is_equal_def markChanged.simps shallowCopy_def objectAssign_def setProp_def
          strict_eq_def proxyState_def stateModified_def get_def)
  show ?thesis
    by (simp only: 1 2) (simp add: live_def get_def has_def getProp_def objAt_def lookup_def
          exampleHeap_def isProxy_def isProxyable_def Let_def)
qed

section \<open>A producer that only reads\<close>

text \<open>
  While every cache has the prototype it was created with, a read of a key other than
  \<^verbatim>\<open>__proto__\<close> keeps it so, raises no error, and leaves the flag, the base and the copy of
  every state as they were.
\<close>

lemma get_plain_key:
  assumes "cachesPristine w" and "s < length (states w)" and "k \<noteq> Prop ''__proto__''"
  shows "cachesPristine (snd (get s k w))"
    and "\<exists>v. fst (get s k w) = Inr v"
    and "t < length (states w) \<Longrightarrow>
           t < length (states (snd (get s k w))) \<and>
           modified (states (snd (get s k w)) ! t) = modified (states w ! t) \<and>
           base (states (snd (get s k w)) ! t) = base (states w ! t)"
proof -
  from assms(1,2) have n: "proxiesProto (states w ! s) = None"
    by (simp add: cachesPristine_def list_all_length)
  let ?w1 = "\<lambda>v. w\<lparr>states := states w @ [createState (Some s) v],
                     registry := registry w @ [length (states w)]\<rparr>"
  have c: "cacheStore s k d (?w1 v) =
      (Inr d, w\<lparr>states := (states w @ [createState (Some s) v])
                   [s := (states w ! s)\<lparr>proxies := AList.update k d (proxies (states w ! s))\<rparr>],
                registry := registry w @ [length (states w)]\<rparr>)" for d v
    using assms(2,3) n by (simp add: cacheStore_def Let_def nth_append)
  have pr: "list_all (\<lambda>st. proxiesProto st = None)
              ((states w @ [createState (Some s) v])[s := (states w ! s)\<lparr>proxies := al\<rparr>])" for v al
    using assms(1,2) n
    by (auto simp: cachesPristine_def list_all_length nth_list_update nth_append createState_def
          less_Suc_eq)
  have pr2: "list_all (\<lambda>st. proxiesProto st = None) (states w @ [createState (Some s) v])" for v
    using assms(1) by (simp add: cachesPristine_def createState_def)
  show "cachesPristine (snd (get s k w))"
    using assms(1) pr pr2
    by (auto simp: get_def Let_def createProxy_def c cachesPristine_def)
  show "\<exists>v. fst (get s k w) = Inr v"
    by (auto simp: get_def Let_def createProxy_def c)
  show "t < length (states (snd (get s k w))) \<and>
        modified (states (snd (get s k w)) ! t) = modified (states w ! t) \<and>
        base (states (snd (get s k w)) ! t) = base (states w ! t)" if "t < length (states w)"
    using that assms(2)
    by (auto simp: get_def Let_def createProxy_def c nth_list_update nth_append)
qed

lemma run_plain_reads_keep_states:
  assumes "\<not> mutates c w" and "\<not> readsProto c w" and "cachesPristine w"
    and "t < length (states w)"
  shows "t < length (states (snd (run c w))) \<and>
         modified (states (snd (run c w)) ! t) = modified (states w ! t) \<and>
         base (states (snd (run c w)) ! t) = base (states w ! t) \<and>
         cachesPristine (snd (run c w))"
  using assms
proof (induction c arbitrary: w)
  case (Get p k f)
  show ?case
  proof (cases "live w p")
    case True
    then have p: "p < length (states w)" by (simp add: live_def)
    from Get.prems(2) True have k: "k \<noteq> Prop ''__proto__''" by auto
    note g = get_plain_key [OF Get.prems(3) p k]
    from g(2) obtain v w' where gv: "get p k w = (Inr v, w')" by (cases "get p k w") auto
    from Get.prems(1) True gv have nm: "\<not> mutates (f v) w'" by simp
    from Get.prems(2) True gv have nr: "\<not> readsProto (f v) w'" by simp
    from g(1) gv have cp: "cachesPristine w'" by simp
    from g(3) [OF Get.prems(4)] gv have t: "t < length (states w')"
      "modified (states w' ! t) = modified (states w ! t)" "base (states w' ! t) = base (states w ! t)"
      by simp_all
    from Get.IH [OF rangeI nm nr cp t(1)] t True gv show ?thesis by simp
  next
    case False
    with Get.prems show ?thesis by simp
  qed
next
  case (New kd es f)
  let ?w' = "w\<lparr>heap := heap w @ [\<lparr>kind = kd, ents = es\<rparr>]\<rparr>"
  from New.prems have "\<not> mutates (f (Ref (length (heap w)))) ?w'"
    "\<not> readsProto (f (Ref (length (heap w)))) ?w'" "cachesPristine ?w'" "t < length (states ?w')"
    by (simp_all add: cachesPristine_def)
  from New.IH [OF rangeI this] show ?case by simp
next
  case (Try c h)
  obtain r w' where r: "run c w = (r, w')" by (cases "run c w")
  from Try.prems have nc: "\<not> mutates c w" "\<not> readsProto c w" by simp_all
  note c = Try.IH(1) [OF nc Try.prems(3,4)]
  show ?case
  proof (cases r)
    case (Inl e)
    with Try.prems(1,2) r have "\<not> mutates (h e) w'" "\<not> readsProto (h e) w'" by simp_all
    from Try.IH(2) [OF rangeI this] c r Inl show ?thesis by simp
  next
    case (Inr v)
    with r c show ?thesis by simp
  qed
qed (auto simp: defineProperty_def setPrototypeOf_def split: if_splits)

text \<open>
  A call whose producer performs no write and no delete, never reads the key
  \<^verbatim>\<open>__proto__\<close> and returns \<^verbatim>\<open>undefined\<close> returns the very value it was given as base,
  whatever the fuel.
\<close>

lemma plain_reads_return_base:
  assumes "\<not> mutates (producer (rootDraft w)) (entered b w)"
    and "\<not> readsProto (producer (rootDraft w)) (entered b w)"
    and "cachesPristine w"
    and "fst (run (producer (rootDraft w)) (entered b w)) = Inr Undefined"
  shows "fst (produceProxy fuel b producer w) = Some (Inr b)"
proof -
  let ?r = "length (states w)"
  obtain w2 where r: "run (producer (rootDraft w)) (entered b w) = (Inr Undefined, w2)"
    using assms(4) by (cases "run (producer (rootDraft w)) (entered b w)") simp
  have e: "?r < length (states (entered b w))" "\<not> modified (states (entered b w) ! ?r)"
    "base (states (entered b w) ! ?r) = b"
    by (simp_all add: createState_def)
  have cp: "cachesPristine (entered b w)"
    using assms(3) by (simp add: cachesPristine_def createState_def)
  from run_plain_reads_keep_states [OF assms(1,2) cp e(1)] r e
  have "?r < length (states w2)" "\<not> modified (states w2 ! ?r)" "base (states w2 ! ?r) = b"
    by simp_all
  then have "finalize fuel (rootDraft w) w2 = (Some b, w2)"
    by (simp add: finalize.simps(1) rootDraft_def)
  with r show ?thesis
    by (simp add: produceProxy_cases fst_revokeAndReturn)
qed

lemma plain_reads_return_base_example:
  "fst (produceProxy 0 (Ref 0) readOnly (initial exampleHeap)) = Some (Inr (Ref 0))"
proof (rule plain_reads_return_base)
  show "\<not> mutates (readOnly (rootDraft (initial exampleHeap))) (entered (Ref 0) (initial exampleHeap))"
    by code_simp
  show "\<not> readsProto (readOnly (rootDraft (initial exampleHeap)))
            (entered (Ref 0) (initial exampleHeap))"
    by code_simp
  show "cachesPristine (initial exampleHeap)" by (simp add: cachesPristine_def)
  show "fst (run (readOnly (rootDraft (initial exampleHeap))) (entered (Ref 0) (initial exampleHeap)))
          = Inr Undefined"
    by code_simp
qed

text \<open>
  C6. The claim is that a call whose producer performs no write and no delete and returns
  \<^verbatim>\<open>undefined\<close> returns the very base it was given. On the base
  \<^verbatim>\<open>JSON.parse('{"__proto__": {"b": 1}}')\<close>, the producer that reads \<^verbatim>\<open>draft.__proto__\<close>
  twice and returns nothing performs no write and no delete. The first read makes the
  child draft the prototype of the root's cache instead of caching it; the second read
  creates another draft, and its store into the cache runs the \<open>set\<close> trap of the first
  child, which escalates the child and the root. The root state ends modified and the call
  returns a new container, at address 4, not the base at address 0.
\<close>

theorem proto_reads_return_new_root:
  "\<not> mutates (readProtoTwice (rootDraft (initial protoHeap))) protoStart \<and>
   fst (run (readProtoTwice (rootDraft (initial protoHeap))) protoStart) = Inr Undefined \<and>
   modified (states (snd (run (readProtoTwice (rootDraft (initial protoHeap))) protoStart)) ! 0) \<and>
   modified (states (snd (run (readProtoTwice (rootDraft (initial protoHeap))) protoStart)) ! 1) \<and>
   fst (produceProxy 2 (Ref 0) readProtoTwice (initial protoHeap)) = Some (Inr (Ref 4)) \<and>
   fst (produceProxy 2 (Ref 0) readProtoTwice (initial protoHeap)) \<noteq> Some (Inr (Ref 0))"
proof -
  let ?c = "readProtoTwice (rootDraft (initial protoHeap))"
  have 1: "\<not> mutates ?c protoStart" by code_simp
  have 2: "fst (run ?c protoStart) = Inr Undefined" by code_simp
  have 3: "modified (states (snd (run ?c protoStart)) ! 0)" by code_simp
  have 4: "modified (states (snd (run ?c protoStart)) ! 1)" by code_simp
  have 5: "fst (produceProxy 2 (Ref 0) readProtoTwice (initial protoHeap)) = Some (Inr (Ref 4))"
    by code_simp
  from 1 2 3 4 5 show ?thesis by simp
qed


section \<open>Upward closure\<close>

lemma parentsClosed_upwardClosed:
  assumes "parentsClosed w"
  shows "upwardClosed w"
proof -
  have "ancestor w s p \<Longrightarrow> s < length (states w) \<Longrightarrow> modified (states w ! s) \<Longrightarrow>
        p < length (states w) \<and> modified (states w ! p)" for s p
  proof (induction rule: ancestor.induct)
    case (direct s p)
    with assms show ?case by (simp add: parentsClosed_def)
  next
    case (further s q p)
    then have "q < length (states w) \<and> modified (states w ! q)" by simp
    with further.hyps assms show ?case unfolding parentsClosed_def by blast
  qed
  then show ?thesis by (auto simp: upwardClosed_def)
qed

lemma parentsClosed_cong: "states w' = states w \<Longrightarrow> parentsClosed w \<Longrightarrow> parentsClosed w'"
  by (simp add: parentsClosed_def)

text \<open>
  \<open>markChanged s\<close> repairs the one place where the closure may fail: parent links into \<open>s\<close>.
\<close>

lemma markChanged_closes:
  assumes "\<forall>t < length (states w). \<forall>p. parent (states w ! t) = Some p \<longrightarrow>
             p < length (states w) \<and> (modified (states w ! t) \<longrightarrow> p = s \<or> modified (states w ! p))"
  shows "parentsClosed (markChanged s w)"
  using assms
proof (induction s w rule: markChanged_step_induct)
  case (step s w)
  show ?case
  proof (cases "s < length (states w) \<and> \<not> modified (states w ! s)")
    case False
    with step.prems have "parentsClosed w"
      unfolding parentsClosed_def by blast
    with False show ?thesis by (simp add: markChanged_id)
  next
    case True
    note valid = True
    show ?thesis
    proof (cases "parent (states w ! s)")
      case None
      have "parentsClosed (markStep s w)"
        unfolding parentsClosed_def
      proof (intro allI impI)
        fix t p assume t: "t < length (states (markStep s w))"
          and p: "parent (states (markStep s w) ! t) = Some p"
        from t p None True have ts: "t \<noteq> s" by (auto simp: nth_list_update)
        with t p step.prems True
        show "p < length (states (markStep s w)) \<and>
              (modified (states (markStep s w) ! t) \<longrightarrow> modified (states (markStep s w) ! p))"
          by (auto simp: nth_list_update)
      qed
      with True None show ?thesis by (simp add: markChanged_unfold)
    next
      case (Some q)
      have "parentsClosed (markChanged q (markStep s w))"
      proof (rule step.IH)
        show "s < length (states w)" "\<not> modified (states w ! s)" "parent (states w ! s) = Some q"
          using True Some by simp_all
        show "\<forall>t<length (states (markStep s w)). \<forall>p. parent (states (markStep s w) ! t) = Some p \<longrightarrow>
            p < length (states (markStep s w)) \<and>
            (modified (states (markStep s w) ! t) \<longrightarrow> p = q \<or> modified (states (markStep s w) ! p))"
        proof (intro allI impI)
          fix t p assume t: "t < length (states (markStep s w))"
            and p: "parent (states (markStep s w) ! t) = Some p"
          show "p < length (states (markStep s w)) \<and>
            (modified (states (markStep s w) ! t) \<longrightarrow> p = q \<or> modified (states (markStep s w) ! p))"
          proof (cases "t = s")
            case True
            with t p Some step.prems valid show ?thesis by (auto simp: nth_list_update)
          next
            case False
            with t p step.prems valid show ?thesis by (auto simp: nth_list_update)
          qed
        qed
      qed
      with True Some show ?thesis by (simp add: markChanged_unfold)
    qed
  qed
qed

lemma markChanged_parentsClosed:
  "parentsClosed w \<Longrightarrow> parentsClosed (markChanged s w)"
  by (rule markChanged_closes) (auto simp: parentsClosed_def)

lemma markChanged_modified_mono:
  assumes "t < length (states w)" and "modified (states w ! t)"
  shows "modified (states (markChanged s w) ! t)"
  using escalated_markChanged [of w s] assms by (auto simp: escalated_def)


lemma parentsClosed_append:
  assumes "parentsClosed w" and "states w' = states w @ [st]" and "\<not> modified st"
    and "\<And>p. parent st = Some p \<Longrightarrow> p < length (states w)"
  shows "parentsClosed w'"
  unfolding parentsClosed_def
proof (intro allI impI)
  fix t p assume t: "t < length (states w')" and p: "parent (states w' ! t) = Some p"
  show "p < length (states w') \<and> (modified (states w' ! t) \<longrightarrow> modified (states w' ! p))"
  proof (cases "t < length (states w)")
    case True
    with p assms(2) have "parent (states w ! t) = Some p" by (simp add: nth_append)
    with True assms(1) have "p < length (states w)" "modified (states w ! t) \<longrightarrow> modified (states w ! p)"
      unfolding parentsClosed_def by blast+
    with True assms(2) show ?thesis by (simp add: nth_append)
  next
    case False
    with t assms(2) have "t = length (states w)" by simp
    with p assms(2,3,4) show ?thesis by (simp add: nth_append)
  qed
qed

lemma parentsClosed_update:
  assumes "parentsClosed w" and "states w' = (states w)[s := st]"
    and "parent st = parent (states w ! s)" and "modified st = modified (states w ! s)"
  shows "parentsClosed w'"
proof -
  have "parent (states w' ! t) = parent (states w ! t) \<and>
        modified (states w' ! t) = modified (states w ! t)" if "t < length (states w)" for t
    using that assms(2,3,4) by (cases "t = s") simp_all
  moreover have "length (states w') = length (states w)" using assms(2) by simp
  ultimately show ?thesis using assms(1) unfolding parentsClosed_def by metis
qed

lemma set_trap_states:
  "states (snd (set_trap s k v w)) = states w \<or>
   states (snd (set_trap s k v w)) = states (markChanged s w)"
  by (auto simp: set_trap_def Let_def)

lemma deleteProperty_states:
  "states (snd (deleteProperty s k w)) = states (markChanged s w)"
  by (simp add: deleteProperty_def Let_def)

lemma createProxy_parentsClosed:
  assumes "parentsClosed w" and "s < length (states w)"
  shows "parentsClosed (snd (createProxy (Some s) v w))"
  using assms(1)
proof (rule parentsClosed_append)
  show "states (snd (createProxy (Some s) v w)) = states w @ [createState (Some s) v]"
    by (simp add: createProxy_def Let_def)
  show "\<not> modified (createState (Some s) v)" by (simp add: createState_def)
  show "p < length (states w)" if "parent (createState (Some s) v) = Some p" for p
    using that assms(2) by (simp add: createState_def)
qed

lemma set_trap_parentsClosed:
  assumes "parentsClosed w"
  shows "parentsClosed (snd (set_trap p k v w))"
  using set_trap_states [of p k v w]
proof
  assume "states (snd (set_trap p k v w)) = states w"
  then show ?thesis using assms by (rule parentsClosed_cong)
next
  assume "states (snd (set_trap p k v w)) = states (markChanged p w)"
  then show ?thesis using markChanged_parentsClosed [OF assms] by (rule parentsClosed_cong)
qed

lemma cacheStore_parentsClosed:
  assumes "parentsClosed w"
  shows "parentsClosed (snd (cacheStore s k d w))"
  using cacheStore_world_cases [of s k d w]
proof (elim disjE exE conjE)
  assume "snd (cacheStore s k d w) = w"
  with assms show ?thesis by simp
next
  fix q assume "snd (cacheStore s k d w) = snd (set_trap q k d w)"
  with set_trap_parentsClosed [OF assms, of q k d] show ?thesis by simp
next
  fix al
  assume e: "snd (cacheStore s k d w) =
               w\<lparr>states := (states w)[s := (states w ! s)\<lparr>proxies := al\<rparr>]\<rparr>"
  show ?thesis
    by (rule parentsClosed_update [OF assms, where s = s and st = "(states w ! s)\<lparr>proxies := al\<rparr>"])
       (simp_all add: e)
next
  fix pr
  assume e: "snd (cacheStore s k d w) =
               w\<lparr>states := (states w)[s := (states w ! s)\<lparr>proxiesProto := pr\<rparr>]\<rparr>"
  show ?thesis
    by (rule parentsClosed_update [OF assms, where s = s
          and st = "(states w ! s)\<lparr>proxiesProto := pr\<rparr>"])
       (simp_all add: e)
qed

lemma get_parentsClosed:
  assumes "parentsClosed w" and "s < length (states w)"
  shows "parentsClosed (snd (get s k w))"
  using get_world_cases [of s k w]
proof (elim disjE exE conjE)
  assume "snd (get s k w) = w"
  with assms(1) show ?thesis by simp
next
  fix v
  assume "snd (get s k w) =
            setProp (copy (states w ! s)) k (Prox (length (states w)))
              (snd (createProxy (Some s) v w))"
  then have "states (snd (get s k w)) = states (snd (createProxy (Some s) v w))" by simp
  then show ?thesis using createProxy_parentsClosed [OF assms] by (rule parentsClosed_cong)
next
  fix v
  assume "snd (get s k w) =
            snd (cacheStore s k (Prox (length (states w))) (snd (createProxy (Some s) v w)))"
  with cacheStore_parentsClosed [OF createProxy_parentsClosed [OF assms]]
  show ?thesis by simp
qed

lemma run_parentsClosed:
  assumes "parentsClosed w"
  shows "parentsClosed (snd (run c w))"
  using assms
proof (rule run_invariant [where I = parentsClosed, rotated -1])
  fix p k w assume "parentsClosed w" "live w p"
  then show "parentsClosed (snd (get p k w))" by (simp add: get_parentsClosed live_def)
next
  fix p k v w assume "parentsClosed w" "live w p"
  then show "parentsClosed (snd (set_trap p k v w))" by (simp add: set_trap_parentsClosed)
next
  fix p k w assume a: "parentsClosed w" "live w p"
  from deleteProperty_states markChanged_parentsClosed [OF a(1)]
  show "parentsClosed (snd (deleteProperty p k w))" by (rule parentsClosed_cong)
next
  fix kd es w assume "parentsClosed w"
  then show "parentsClosed (w\<lparr>heap := heap w @ [\<lparr>kind = kd, ents = es\<rparr>]\<rparr>)"
    by (simp add: parentsClosed_def)
qed

lemma keepsModified_markChanged:
  assumes "keepsModified w0 w" and "states w' = states (markChanged s w)"
  shows "keepsModified w0 w'"
  using assms markChanged_modified_mono [of _ w s]
  by (auto simp: keepsModified_def)

lemma keepsModified_trans:
  "keepsModified w0 w \<Longrightarrow> keepsModified w w' \<Longrightarrow> keepsModified w0 w'"
  by (simp add: keepsModified_def)

lemma keepsModified_refl: "keepsModified w w"
  by (simp add: keepsModified_def)

lemma keepsModified_createProxy: "keepsModified w (snd (createProxy p v w))"
  by (simp add: keepsModified_def createProxy_def Let_def nth_append)

lemma keepsModified_set_trap: "keepsModified w (snd (set_trap p k v w))"
  using set_trap_states [of p k v w]
proof
  assume "states (snd (set_trap p k v w)) = states w"
  then show ?thesis by (simp add: keepsModified_def)
next
  assume "states (snd (set_trap p k v w)) = states (markChanged p w)"
  with keepsModified_refl show ?thesis by (rule keepsModified_markChanged)
qed

lemma keepsModified_update:
  assumes "modified st = modified (states w ! s)"
  shows "keepsModified w (w\<lparr>states := (states w)[s := st]\<rparr>)"
proof -
  have "modified ((states w)[s := st] ! t)" if "t < length (states w)" "modified (states w ! t)" for t
    using that assms by (cases "t = s") simp_all
  then show ?thesis by (simp add: keepsModified_def)
qed

lemma keepsModified_cacheStore: "keepsModified w (snd (cacheStore s k d w))"
  using cacheStore_world_cases [of s k d w]
proof (elim disjE exE conjE)
  assume "snd (cacheStore s k d w) = w"
  then show ?thesis by (simp add: keepsModified_refl)
next
  fix q assume "snd (cacheStore s k d w) = snd (set_trap q k d w)"
  then show ?thesis by (simp add: keepsModified_set_trap)
next
  fix al
  assume "snd (cacheStore s k d w) =
            w\<lparr>states := (states w)[s := (states w ! s)\<lparr>proxies := al\<rparr>]\<rparr>"
  then show ?thesis by (simp add: keepsModified_update)
next
  fix pr
  assume "snd (cacheStore s k d w) =
            w\<lparr>states := (states w)[s := (states w ! s)\<lparr>proxiesProto := pr\<rparr>]\<rparr>"
  then show ?thesis by (simp add: keepsModified_update)
qed

lemma keepsModified_get: "keepsModified w (snd (get s k w))"
  using get_world_cases [of s k w]
proof (elim disjE exE conjE)
  assume "snd (get s k w) = w"
  then show ?thesis by (simp add: keepsModified_refl)
next
  fix v
  assume "snd (get s k w) =
            setProp (copy (states w ! s)) k (Prox (length (states w)))
              (snd (createProxy (Some s) v w))"
  then have "states (snd (get s k w)) = states (snd (createProxy (Some s) v w))" by simp
  with keepsModified_createProxy [of w "Some s" v] show ?thesis by (simp add: keepsModified_def)
next
  fix v
  assume "snd (get s k w) =
            snd (cacheStore s k (Prox (length (states w))) (snd (createProxy (Some s) v w)))"
  with keepsModified_trans [OF keepsModified_createProxy keepsModified_cacheStore]
  show ?thesis by simp
qed

lemma run_keepsModified: "keepsModified w (snd (run c w))"
proof -
  have "keepsModified w w \<Longrightarrow> keepsModified w (snd (run c w))"
  proof (rule run_invariant [where I = "keepsModified w"])
    fix p k w' assume "keepsModified w w'"
    then show "keepsModified w (snd (get p k w'))"
      using keepsModified_get by (rule keepsModified_trans)
  next
    fix p k v w' assume "keepsModified w w'"
    then show "keepsModified w (snd (set_trap p k v w'))"
      using keepsModified_set_trap by (rule keepsModified_trans)
  next
    fix p k w' assume a: "keepsModified w w'" "live w' p"
    from a(1) deleteProperty_states show "keepsModified w (snd (deleteProperty p k w'))"
      by (rule keepsModified_markChanged)
  next
    fix kd es w' assume "keepsModified w w'"
    then show "keepsModified w (w'\<lparr>heap := heap w' @ [\<lparr>kind = kd, ents = es\<rparr>]\<rparr>)"
      by (simp add: keepsModified_def)
  qed
  then show ?thesis by (simp add: keepsModified_def)
qed

text \<open>
  C4. In a world where every modified state has a modified parent, which is how every call
  starts, any run of draft operations ends in a world where every modified state has all
  its ancestors modified, up to the root; and no run turns the flag of a state from true
  back to false.
\<close>

theorem upward_closure_invariant:
  "parentsClosed (entered b (initial h)) \<and>
   (parentsClosed w \<longrightarrow> parentsClosed (entered b w)) \<and>
   (parentsClosed w \<longrightarrow> parentsClosed (snd (run c w)) \<and> upwardClosed (snd (run c w))) \<and>
   keepsModified w (snd (run c w))"
proof (intro conjI impI)
  show "parentsClosed (entered b (initial h))"
    by (simp add: parentsClosed_def initial_def createState_def)
  show "parentsClosed (entered b w)" if "parentsClosed w"
    using that by (rule parentsClosed_append [where st = "createState None b"])
      (simp_all add: createState_def)
  show "parentsClosed (snd (run c w))" if "parentsClosed w"
    using that by (rule run_parentsClosed)
  then show "upwardClosed (snd (run c w))" if "parentsClosed w"
    using that by (simp add: parentsClosed_upwardClosed)
  show "keepsModified w (snd (run c w))" by (rule run_keepsModified)
qed


theorem upward_closure_invariant_witness:
  "upwardClosed (snd (run (deepWrite (Prox 0)) (entered (Ref 0) (initial exampleHeap)))) \<and>
   ancestor (snd (run (deepWrite (Prox 0)) (entered (Ref 0) (initial exampleHeap)))) 1 0 \<and>
   modified (states (snd (run (deepWrite (Prox 0)) (entered (Ref 0) (initial exampleHeap)))) ! 1) \<and>
   modified (states (snd (run (deepWrite (Prox 0)) (entered (Ref 0) (initial exampleHeap)))) ! 0)"
proof -
  let ?start = "entered (Ref 0) (initial exampleHeap)"
  let ?w = "snd (run (deepWrite (Prox 0)) ?start)"
  note t = upward_closure_invariant [of "Ref 0" exampleHeap ?start "deepWrite (Prox 0)"]
  from t have p: "parentsClosed ?start" by (rule conjunct1)
  from t have "parentsClosed ?start \<longrightarrow> parentsClosed ?w \<and> upwardClosed ?w"
    by (elim conjE)
  with p have u: "upwardClosed ?w" by simp
  have s1: "length (states ?w) = 2" by code_simp
  have s2: "parent (states ?w ! 1) = Some 0" by code_simp
  have s3: "modified (states ?w ! 1)" by code_simp
  from s1 s2 have a: "ancestor ?w 1 0" by (intro ancestor.direct) simp_all
  from u have "1 < length (states ?w) \<and> modified (states ?w ! 1) \<and> ancestor ?w 1 0 \<longrightarrow>
      0 < length (states ?w) \<and> modified (states ?w ! 0)"
    unfolding upwardClosed_def by (elim allE)
  with s1 s3 a have "modified (states ?w ! 0)" by simp
  with u a s3 show ?thesis by simp
qed


section \<open>Finalizing values that hold no draft\<close>

lemma plain_mono: "plain h n v \<Longrightarrow> n \<le> n' \<Longrightarrow> plain h n' v"
proof (induction n arbitrary: n' v)
  case 0
  show ?case
  proof (cases v)
    case (Ref a)
    with 0 show ?thesis by (cases n') auto
  next
    case (Prox p)
    with 0 show ?thesis by simp
  qed simp_all
next
  case (Suc m)
  show ?case
  proof (cases v)
    case (Ref a)
    from Suc.prems(2) obtain m' where n': "n' = Suc m'" and m: "m \<le> m'" by (cases n') auto
    from Suc.prems(1) Ref have a: "a < length h"
      and b: "kind (h ! a) = Exotic \<or> (\<forall>e \<in> set (ents (h ! a)). plain h m (snd e))"
      by simp_all
    from b Suc.IH [OF _ m]
    have "kind (h ! a) = Exotic \<or> (\<forall>e \<in> set (ents (h ! a)). plain h m' (snd e))"
      by blast
    with a Ref n' show ?thesis by simp
  next
    case (Prox p)
    with Suc.prems show ?thesis by simp
  qed simp_all
qed

lemma plain_append: "plain h n v \<Longrightarrow> plain (h @ ext) n v"
proof (induction n arbitrary: v)
  case 0
  then show ?case by (cases v) (auto simp: nth_append)
next
  case (Suc m)
  show ?case
  proof (cases v)
    case (Ref a)
    from Suc.prems Ref have a: "a < length h"
      and b: "kind (h ! a) = Exotic \<or> (\<forall>e \<in> set (ents (h ! a)). plain h m (snd e))"
      by simp_all
    from b Suc.IH
    have "kind (h ! a) = Exotic \<or> (\<forall>e \<in> set (ents (h ! a)). plain (h @ ext) m (snd e))"
      by blast
    with a Ref show ?thesis by (simp add: nth_append)
  next
    case (Prox p)
    with Suc.prems show ?thesis by simp
  qed simp_all
qed

lemma world_heap_same [simp]:
  "a < length (heap w) \<Longrightarrow> w\<lparr>heap := (heap w)[a := (heap w ! a)\<lparr>ents := ents (heap w ! a)\<rparr>]\<rparr> = w"
  by simp

lemma finalize_plain:
  "plain (heap w) n v \<Longrightarrow> finalize n v w = (Some v, w)"
  and finalizeEach_plain:
  "(case n of 0 \<Rightarrow> es = [] | Suc m \<Rightarrow> \<forall>e \<in> set es. plain (heap w) m (snd e)) \<Longrightarrow>
     finalizeEach n es w = (Some es, w)"
proof (induction n v w and n es w rule: finalize_finalizeEach.induct)
  case (1 n v w)
  show ?case
  proof (cases v)
    case (Ref a)
    show ?thesis
    proof (cases "isProxyable w v")
      case True
      with Ref have a: "a < length (heap w)" "kind (heap w ! a) \<noteq> Exotic"
        by (auto simp: isProxyable_def objAt_def split: if_splits)
      from "1.prems" Ref a
      have "case n of 0 \<Rightarrow> ents (heap w ! a) = [] | Suc m \<Rightarrow> \<forall>e \<in> set (ents (heap w ! a)). plain (heap w) m (snd e)"
        by (cases n) auto
      from "1.IH"(1) [OF Ref True this] a Ref True show ?thesis
        by (simp add: finalize.simps(1))
    next
      case False
      with Ref show ?thesis by (simp add: finalize.simps(1))
    qed
  next
    case (Prox p)
    with "1.prems" show ?thesis by simp
  qed (simp_all add: finalize.simps(1))
next
  case (2 n w)
  then show ?case by simp
next
  case (3 e es w)
  then show ?case by simp
next
  case (4 m e es w)
  from "4.prems" have e: "plain (heap w) m (snd e)" and es: "\<forall>e \<in> set es. plain (heap w) m (snd e)"
    by simp_all
  from "4.IH"(1) [OF e] have f: "finalize m (snd e) w = (Some (snd e), w)" .
  from "4.IH"(2) [OF f [symmetric] refl] es
  have "finalizeEach (Suc m) es w = (Some es, w)" by simp
  with f show ?case by simp
qed


section \<open>Deleting a key that does not exist\<close>

lemma deleteProperty_escalates:
  assumes "s < length (states w)" and "parentsClosed w"
  shows "modified (states (snd (deleteProperty s k w)) ! s)"
    and "ancestor (snd (deleteProperty s k w)) s p \<Longrightarrow>
           p < length (states (snd (deleteProperty s k w))) \<and>
           modified (states (snd (deleteProperty s k w)) ! p)"
    and "t < length (states w) \<Longrightarrow> \<not> modified (states w ! t) \<Longrightarrow>
         modified (states (snd (deleteProperty s k w)) ! t) \<Longrightarrow>
           \<exists>c. copy (states (snd (deleteProperty s k w)) ! t) = Ref c \<and>
               length (heap w) \<le> c \<and> c < length (heap (snd (deleteProperty s k w)))"
proof -
  let ?w' = "snd (deleteProperty s k w)"
  have st: "states ?w' = states (markChanged s w)" by (rule deleteProperty_states)
  have len: "length (heap ?w') = length (heap (markChanged s w))"
    by (simp add: deleteProperty_def Let_def)
  show m: "modified (states ?w' ! s)"
  proof (cases "modified (states w ! s)")
    case True
    with assms(1) show ?thesis by (simp add: st markChanged_modified_mono)
  next
    case False
    with assms(1) markChanged_fresh(1) [of s w] show ?thesis by (simp add: st)
  qed
  have "parentsClosed ?w'"
    using st markChanged_parentsClosed [OF assms(2)] by (rule parentsClosed_cong)
  then have uc: "upwardClosed ?w'" by (rule parentsClosed_upwardClosed)
  have sl: "s < length (states ?w')" using assms(1) by (simp add: st)
  show "p < length (states ?w') \<and> modified (states ?w' ! p)" if "ancestor ?w' s p"
  proof -
    from uc have "s < length (states ?w') \<and> modified (states ?w' ! s) \<and> ancestor ?w' s p \<longrightarrow>
            p < length (states ?w') \<and> modified (states ?w' ! p)"
      unfolding upwardClosed_def by (elim allE)
    with sl m that show ?thesis by (elim impE) (intro conjI)
  qed
  show "\<exists>c. copy (states ?w' ! t) = Ref c \<and> length (heap w) \<le> c \<and> c < length (heap ?w')"
    if t: "t < length (states w)" "\<not> modified (states w ! t)" "modified (states ?w' ! t)"
  proof -
    from escalated_markChanged [of w s] t(1)
    have "states (markChanged s w) ! t = states w ! t \<or>
         (\<not> modified (states w ! t) \<and>
          (\<exists>c. length (heap w) \<le> c \<and> c < length (heap (markChanged s w)) \<and>
               states (markChanged s w) ! t = (states w ! t)\<lparr>modified := True, copy := Ref c\<rparr>))"
      unfolding escalated_def by (elim conjE allE impE)
    then show ?thesis
    proof
      assume "states (markChanged s w) ! t = states w ! t"
      with t(2,3) show ?thesis by (simp add: st)
    next
      assume "\<not> modified (states w ! t) \<and>
          (\<exists>c. length (heap w) \<le> c \<and> c < length (heap (markChanged s w)) \<and>
               states (markChanged s w) ! t = (states w ! t)\<lparr>modified := True, copy := Ref c\<rparr>)"
      then obtain c where "length (heap w) \<le> c" "c < length (heap (markChanged s w))"
        "states (markChanged s w) ! t = (states w ! t)\<lparr>modified := True, copy := Ref c\<rparr>"
        by blast
      then show ?thesis by (intro exI [of _ c]) (simp add: st len)
    qed
  qed
qed

text \<open>
  C10. \<^verbatim>\<open>deleteProperty\<close> escalates whatever the key: afterwards the state and every
  ancestor are modified, and every state that has become modified holds a freshly
  allocated copy. Hence a call whose only action is to delete a key that the base does not
  have returns a new container, not the base, although the new container has exactly the
  entries of the base. (The base is a plain container that holds no draft and nests at most
  as deep as the fuel.)
\<close>

theorem delete_absent_key_escalates:
  "(s < length (states w) \<and> parentsClosed w \<longrightarrow>
      modified (states (snd (deleteProperty s k w)) ! s) \<and>
      (\<forall>p. ancestor (snd (deleteProperty s k w)) s p \<longrightarrow>
           p < length (states (snd (deleteProperty s k w))) \<and>
           modified (states (snd (deleteProperty s k w)) ! p)) \<and>
      (\<forall>t < length (states w).
         \<not> modified (states w ! t) \<and> modified (states (snd (deleteProperty s k w)) ! t) \<longrightarrow>
           (\<exists>c. copy (states (snd (deleteProperty s k w)) ! t) = Ref c \<and>
                length (heap w) \<le> c \<and> c < length (heap (snd (deleteProperty s k w))))))
   \<and>
   (isProxyable (initial h) (Ref a) \<and> \<not> inOp (initial h) (Ref a) k \<and>
    plain h n (Ref a) \<and> n \<le> fuel \<longrightarrow>
      (\<exists>r. fst (produceProxy fuel (Ref a) (deleteOnly k) (initial h)) = Some (Inr (Ref r)) \<and>
           r \<noteq> a \<and> length h \<le> r \<and>
           r < length (heap (snd (produceProxy fuel (Ref a) (deleteOnly k) (initial h)))) \<and>
           heap (snd (produceProxy fuel (Ref a) (deleteOnly k) (initial h))) ! r = h ! a \<and>
           take (length h) (heap (snd (produceProxy fuel (Ref a) (deleteOnly k) (initial h)))) = h))"
proof (intro conjI impI)
  assume a: "s < length (states w) \<and> parentsClosed w"
  then have s: "s < length (states w)" and pc: "parentsClosed w" by simp_all
  note d = deleteProperty_escalates [OF s pc]
  show "modified (states (snd (deleteProperty s k w)) ! s)" by (rule d(1))
  show "\<forall>p. ancestor (snd (deleteProperty s k w)) s p \<longrightarrow>
           p < length (states (snd (deleteProperty s k w))) \<and>
           modified (states (snd (deleteProperty s k w)) ! p)"
    using d(2) by blast
  show "\<forall>t < length (states w).
         \<not> modified (states w ! t) \<and> modified (states (snd (deleteProperty s k w)) ! t) \<longrightarrow>
           (\<exists>c. copy (states (snd (deleteProperty s k w)) ! t) = Ref c \<and>
                length (heap w) \<le> c \<and> c < length (heap (snd (deleteProperty s k w))))"
    using d(3) by blast
next
  assume b: "isProxyable (initial h) (Ref a) \<and> \<not> inOp (initial h) (Ref a) k \<and>
    plain h n (Ref a) \<and> n \<le> fuel"
  then have a: "a < length h" and kd: "kind (h ! a) \<noteq> Exotic"
    and absent: "map_of (ents (h ! a)) k = None"
    and pl: "plain h fuel (Ref a)"
    by (auto simp: isProxyable_def inOp_def objAt_def split: if_splits
             intro: plain_mono)
  define w2 where "w2 =
     \<lparr>heap = h @ [h ! a],
      states = [\<lparr>modified = True, finalized = False, parent = None, base = Ref a,
                 copy = Ref (length h), proxies = [], proxiesProto = None\<rparr>],
      revoked = {}, registry = [0]\<rparr>"
  from absent have del: "AList.delete k (ents (h ! a)) = ents (h ! a)"
    by (simp add: map_of_eq_None_iff)
  have m: "markChanged 0 (entered (Ref a) (initial h)) =
     \<lparr>heap = h @ [h ! a],
      states = [\<lparr>modified = True, finalized = False, parent = None, base = Ref a,
                 copy = Ref (length h), proxies = [], proxiesProto = None\<rparr>],
      revoked = {}, registry = [0]\<rparr>"
    using a
    by (simp add: markChanged_unfold createState_def markStep_def copyOf_def objAt_def
          initial_def entered_def createProxy_def)
  have run: "run (deleteOnly k (Prox 0)) (entered (Ref a) (initial h)) = (Inr Undefined, w2)"
    using a del
    by (simp add: deleteOnly_def live_def deleteProperty_def m deleteProp_def w2_def nth_append)
  have each_plain: "case fuel of 0 \<Rightarrow> ents (h ! a) = []
                    | Suc m \<Rightarrow> \<forall>e \<in> set (ents (h ! a)). plain (heap w2) m (snd e)"
    using pl a kd by (cases fuel) (auto simp: w2_def intro: plain_append)
  have fe: "finalizeEach fuel (ents (h ! a)) w2 = (Some (ents (h ! a)), w2)"
    using each_plain by (rule finalizeEach_plain)
  have fin: "finalize fuel (Prox 0) w2 =
      (Some (Ref (Suc (length h))), w2\<lparr>heap := h @ [h ! a, h ! a]\<rparr>)"
    using fe by (simp add: finalize.simps(1) w2_def objAt_def)
  let ?res = "produceProxy fuel (Ref a) (deleteOnly k) (initial h)"
  have 1: "fst ?res = Some (Inr (Ref (Suc (length h))))"
    by (simp add: produceProxy_cases run fst_revokeAndReturn fin)
  have 2: "heap (snd ?res) = h @ [h ! a, h ! a]"
    by (simp add: produceProxy_cases run fin)
  show "\<exists>r. fst ?res = Some (Inr (Ref r)) \<and> r \<noteq> a \<and> length h \<le> r \<and>
           r < length (heap (snd ?res)) \<and> heap (snd ?res) ! r = h ! a \<and>
           take (length h) (heap (snd ?res)) = h"
    using 1 2 a by (intro exI [of _ "Suc (length h)"]) (simp add: nth_append)
qed


theorem delete_absent_key_escalates_witness:
  "modified (states (snd (deleteProperty 1 (Prop ''zz'') exampleCached)) ! 1) \<and>
   modified (states (snd (deleteProperty 1 (Prop ''zz'') exampleCached)) ! 0) \<and>
   fst (produceProxy 2 (Ref 0) (deleteOnly (Prop ''zz'')) (initial exampleHeap)) = Some (Inr (Ref 3)) \<and>
   heap (snd (produceProxy 2 (Ref 0) (deleteOnly (Prop ''zz'')) (initial exampleHeap))) ! 3 =
     exampleHeap ! 0"
proof -
  let ?w' = "snd (deleteProperty 1 (Prop ''zz'') exampleCached)"
  let ?res = "produceProxy 2 (Ref 0) (deleteOnly (Prop ''zz'')) (initial exampleHeap)"
  note t = delete_absent_key_escalates [of 1 exampleCached "Prop ''zz''" exampleHeap 0 2 2]
  have pc: "parentsClosed exampleCached"
    unfolding parentsClosed_def by (simp add: exampleCached_def less_Suc_eq)
  have l: "1 < length (states exampleCached)" by (simp add: exampleCached_def)
  from t l pc have m1: "modified (states ?w' ! 1)"
    and anc: "\<forall>p. ancestor ?w' 1 p \<longrightarrow> p < length (states ?w') \<and> modified (states ?w' ! p)"
    by blast+
  have "length (states ?w') = 2" by code_simp
  moreover have "parent (states ?w' ! 1) = Some 0" by code_simp
  ultimately have "ancestor ?w' 1 0" by (intro ancestor.direct) simp_all
  with anc have m0: "modified (states ?w' ! 0)" by blast
  have h: "isProxyable (initial exampleHeap) (Ref 0) \<and>
           \<not> inOp (initial exampleHeap) (Ref 0) (Prop ''zz'') \<and>
           plain exampleHeap 2 (Ref 0) \<and> (2::nat) \<le> 2"
    by (simp add: isProxyable_def inOp_def objAt_def exampleHeap_def numeral_2_eq_2)
  with t obtain r where r: "fst ?res = Some (Inr (Ref r))" "heap (snd ?res) ! r = exampleHeap ! 0"
    by blast
  have "fst ?res = Some (Inr (Ref 3))" by code_simp
  with r have "r = 3" by simp
  with r m1 m0 show ?thesis by simp
qed


section \<open>The base is never written\<close>
























end
